theory Spec2Isabelle
  imports Main
begin

section \<open>The signal/slot library of signals.hpp\<close>

text \<open>
  The header defines three classes that point at each other: a \<open>Signal\<close> owns a
  \<open>std::map\<close> from connection handles to callables, a \<open>Slot\<close> owns a \<open>std::set\<close> of the
  connection handles that target it, and a \<open>Connection\<close> holds two raw back pointers
  (\<open>m_pSignal\<close>, \<open>m_pSlot\<close>). Claims about the library depend on this aliasing, so the
  model is an explicit store: three maps from addresses to objects. A raw pointer is an
  \<open>addr option\<close> (\<open>None\<close> is \<open>nullptr\<close>); a \<open>shared_ptr<Connection>\<close> is the address of
  the Connection it points to, since the containers compare handles by that address.

  Every member function becomes a function from store to \<open>store option\<close>. The result
  \<open>None\<close> stands for undefined behaviour of the C++ program: a member access through
  a pointer whose object is not (or no longer) in the store. \<open>emit\<close> and the call
  operator run code of the client, which may throw; their result says in addition
  whether control left them by returning or with an exception. Allocation and the
  locking primitives themselves are taken not to fail. A Connection stays in the
  store once created, as it does in the program for as long as a caller keeps the handle
  that \<open>connect\<close> returned; Signals and Slots leave the store when they are destroyed.

  The mutexes are not part of the model: it describes one thread of control, in which
  every \<open>lock_guard\<close> is released at the end of its scope, and no path taken below locks
  the non-recursive mutex of a Signal twice.
\<close>

type_synonym addr = nat

subsection \<open>Data\<close>

text \<open>class Connection: the two back pointers.\<close>

record Connection =
  m_pSignal :: "addr option"
  m_pSlot :: "addr option"

text \<open>class Slot: \<open>std::set<std::shared_ptr<Connection>> m_connections\<close>, kept as the
  list of its elements in iteration order.\<close>

record Slot =
  Slot_m_connections :: "addr list"

text \<open>
  What a Signal stores for a connection: a \<open>std::function<void(Args...)>\<close>.
  \<open>connect(function)\<close> stores the \<open>std::function\<close> it is given, which is empty (\<open>None\<close>)
  or holds a target (\<open>Some\<close> of it); nothing in \<open>connect\<close> looks at which.
  \<open>connect(slot, function)\<close> stores a closure that captured the slot pointer and the
  member function pointer and calls \<open>(slot->*function)(args...)\<close>; the pointer to member
  is taken to point at a member function.
\<close>

datatype 'f callable = Function "'f option" | BoundMethod addr 'f

text \<open>class Signal: \<open>std::map<std::shared_ptr<Connection>, std::function<void(Args...)>>
  m_connections\<close>, kept as the list of its key/value pairs in iteration order.\<close>

record 'f Signal =
  Signal_m_connections :: "(addr \<times> 'f callable) list"

text \<open>
  The store, and with it the two things the library sees of the code around it.
  \<open>calls\<close> is the trace of the program: what a listener does when it runs lies outside
  the library, so the model records that the invocation took place. \<open>throws\<close> says of
  which listeners, and for which arguments, the invocation ends with an exception
  instead of returning; no function of the library changes it.
\<close>

record ('f, 'a) heap =
  connections :: "addr \<rightharpoonup> Connection"
  slots :: "addr \<rightharpoonup> Slot"
  signals :: "addr \<rightharpoonup> 'f Signal"
  calls :: "('f callable \<times> 'a) list"
  throws :: "'f callable \<Rightarrow> 'a \<Rightarrow> bool"

subsection \<open>The two containers\<close>

text \<open>\<open>std::set::insert\<close>: an element that is present is not inserted again; a new
  element goes to its place in the order of the addresses.\<close>

definition set_insert :: "addr \<Rightarrow> addr list \<Rightarrow> addr list" where
  "set_insert c cs = (if c \<in> set cs then cs else insort c cs)"

text \<open>\<open>std::set::erase(key)\<close>.\<close>

definition set_erase :: "addr \<Rightarrow> addr list \<Rightarrow> addr list" where
  "set_erase c cs = filter (\<lambda>x. x \<noteq> c) cs"

text \<open>\<open>std::map::insert\<close>: a key that is present keeps its value.\<close>

definition map_insert :: "addr \<Rightarrow> 'v \<Rightarrow> (addr \<times> 'v) list \<Rightarrow> (addr \<times> 'v) list" where
  "map_insert c f m = (if c \<in> fst ` set m then m else insort_key fst (c, f) m)"

text \<open>\<open>std::map::erase(key)\<close>; the number it returns is non-zero exactly when the key
  was present, which is how the callers below test it.\<close>

definition map_erase :: "addr \<Rightarrow> (addr \<times> 'v) list \<Rightarrow> (addr \<times> 'v) list" where
  "map_erase c m = filter (\<lambda>kv. fst kv \<noteq> c) m"

subsection \<open>Signal\<close>

text \<open>
  \<open>Signal::connect(T * slot, void (T::*function)(Args...))\<close>. The address \<open>p\<close> is the one
  \<open>new Connection(this, slot)\<close> returned; the function returns the handle to it, which
  in the model is \<open>p\<close> itself.
\<close>

definition Signal_connect_slot ::
  "addr \<Rightarrow> addr \<Rightarrow> addr \<Rightarrow> 'f \<Rightarrow> ('f, 'a) heap \<Rightarrow> ('f, 'a) heap option" where
  "Signal_connect_slot s p slot function h =
     (case signals h s of
        None \<Rightarrow> None
      | Some sg \<Rightarrow>
          (case slots h slot of
             None \<Rightarrow> None
           | Some so \<Rightarrow>
               Some (h\<lparr>connections := (connections h)(p \<mapsto> \<lparr>m_pSignal = Some s, m_pSlot = Some slot\<rparr>),
                       signals := (signals h)(s \<mapsto>
                         sg\<lparr>Signal_m_connections :=
                              map_insert p (BoundMethod slot function) (Signal_m_connections sg)\<rparr>),
                       slots := (slots h)(slot \<mapsto>
                         so\<lparr>Slot_m_connections := set_insert p (Slot_m_connections so)\<rparr>)\<rparr>)))"

text \<open>\<open>Signal::connect(std::function<void(Args...)> function)\<close>.\<close>

definition Signal_connect ::
  "addr \<Rightarrow> addr \<Rightarrow> 'f option \<Rightarrow> ('f, 'a) heap \<Rightarrow> ('f, 'a) heap option" where
  "Signal_connect s p function h =
     (case signals h s of
        None \<Rightarrow> None
      | Some sg \<Rightarrow>
          Some (h\<lparr>connections := (connections h)(p \<mapsto> \<lparr>m_pSignal = Some s, m_pSlot = None\<rparr>),
                  signals := (signals h)(s \<mapsto>
                    sg\<lparr>Signal_m_connections :=
                         map_insert p (Function function) (Signal_m_connections sg)\<rparr>)\<rparr>))"

text \<open>
  \<open>Signal::disconnect(std::shared_ptr<Connection> connection)\<close>: when \<open>erase\<close> returns 0
  the function returns at once; otherwise it clears \<open>m_pSignal\<close>, and when \<open>m_pSlot\<close> is
  set it erases the connection from that slot's set and clears \<open>m_pSlot\<close>.
\<close>

definition Signal_disconnect ::
  "addr \<Rightarrow> addr \<Rightarrow> ('f, 'a) heap \<Rightarrow> ('f, 'a) heap option" where
  "Signal_disconnect s c h =
     (case signals h s of
        None \<Rightarrow> None
      | Some sg \<Rightarrow>
          if c \<notin> fst ` set (Signal_m_connections sg) then Some h
          else
            (case connections h c of
               None \<Rightarrow> None
             | Some cn \<Rightarrow>
                 let h1 = h\<lparr>signals := (signals h)(s \<mapsto>
                              sg\<lparr>Signal_m_connections := map_erase c (Signal_m_connections sg)\<rparr>),
                            connections := (connections h)(c \<mapsto> cn\<lparr>m_pSignal := None\<rparr>)\<rparr>
                 in (case m_pSlot cn of
                       None \<Rightarrow> Some h1
                     | Some pSlot \<Rightarrow>
                         (case slots h1 pSlot of
                            None \<Rightarrow> None
                          | Some so \<Rightarrow>
                              Some (h1\<lparr>slots := (slots h1)(pSlot \<mapsto>
                                          so\<lparr>Slot_m_connections := set_erase c (Slot_m_connections so)\<rparr>),
                                       connections := (connections h1)(c \<mapsto>
                                          cn\<lparr>m_pSignal := None, m_pSlot := None\<rparr>)\<rparr>)))))"

text \<open>
  The loop of \<open>Signal::disconnectAll\<close> over the keys of the table: it clears \<open>m_pSignal\<close>
  and, when \<open>m_pSlot\<close> is set, erases the connection from that slot's set. It does not
  assign \<open>m_pSlot\<close>.
\<close>

fun disconnectAll_loop :: "addr list \<Rightarrow> ('f, 'a) heap \<Rightarrow> ('f, 'a) heap option" where
  "disconnectAll_loop [] h = Some h"
| "disconnectAll_loop (conn # rest) h =
     (case connections h conn of
        None \<Rightarrow> None
      | Some cn \<Rightarrow>
          let h1 = h\<lparr>connections := (connections h)(conn \<mapsto> cn\<lparr>m_pSignal := None\<rparr>)\<rparr>
          in (case m_pSlot cn of
                None \<Rightarrow> disconnectAll_loop rest h1
              | Some pSlot \<Rightarrow>
                  (case slots h1 pSlot of
                     None \<Rightarrow> None
                   | Some so \<Rightarrow>
                       disconnectAll_loop rest
                         (h1\<lparr>slots := (slots h1)(pSlot \<mapsto>
                            so\<lparr>Slot_m_connections := set_erase conn (Slot_m_connections so)\<rparr>)\<rparr>))))"

text \<open>\<open>Signal::disconnectAll()\<close>: the loop over the keys of the table as it is on entry
  (lemma \<open>disconnectAll_loop_signals\<close>: the loop changes no table), then
  \<open>m_connections.clear()\<close>.\<close>

definition Signal_disconnectAll :: "addr \<Rightarrow> ('f, 'a) heap \<Rightarrow> ('f, 'a) heap option" where
  "Signal_disconnectAll s h =
     (case signals h s of
        None \<Rightarrow> None
      | Some sg \<Rightarrow>
          (case disconnectAll_loop (map fst (Signal_m_connections sg)) h of
             None \<Rightarrow> None
           | Some h' \<Rightarrow>
               Some (h'\<lparr>signals := (signals h')(s \<mapsto> sg\<lparr>Signal_m_connections := []\<rparr>)\<rparr>)))"

text \<open>\<open>Signal::~Signal()\<close>: \<open>disconnectAll()\<close>, after which the object is gone.\<close>

definition Signal_dtor :: "addr \<Rightarrow> ('f, 'a) heap \<Rightarrow> ('f, 'a) heap option" where
  "Signal_dtor s h =
     (case Signal_disconnectAll s h of
        None \<Rightarrow> None
      | Some h' \<Rightarrow> Some (h'\<lparr>signals := (signals h')(s := None)\<rparr>))"

text \<open>
  How control leaves a call: by returning, or with an exception on its way to the caller.
  Either way there is a state. Every lock of the library is held by a \<open>lock_guard\<close>, so
  an exception that passes through leaves no lock behind.
\<close>

datatype 'h outcome = Returned 'h | Thrown 'h

fun state_of :: "'h outcome \<Rightarrow> 'h" where
  "state_of (Returned h) = h"
| "state_of (Thrown h) = h"

text \<open>
  The call \<open>kv.second(args...)\<close> of a stored callable. The call operator of an empty
  \<open>std::function\<close> throws \<open>std::bad_function_call\<close> and runs nothing. Any other callable
  runs, which the trace records, and then returns or throws.
\<close>

definition invoke :: "'f callable \<Rightarrow> 'a \<Rightarrow> ('f, 'a) heap \<Rightarrow> ('f, 'a) heap outcome" where
  "invoke f args h =
     (if f = Function None then Thrown h
      else if throws h f args then Thrown (h\<lparr>calls := calls h @ [(f, args)]\<rparr>)
      else Returned (h\<lparr>calls := calls h @ [(f, args)]\<rparr>))"

text \<open>The loop of \<open>Signal::emit\<close> over the table. Nothing in it catches an exception: the
  first call that throws ends the loop, and the entries after it are not reached.\<close>

fun emit_loop ::
  "(addr \<times> 'f callable) list \<Rightarrow> 'a \<Rightarrow> ('f, 'a) heap \<Rightarrow> ('f, 'a) heap outcome" where
  "emit_loop [] args h = Returned h"
| "emit_loop (kv # rest) args h =
     (case invoke (snd kv) args h of
        Returned h' \<Rightarrow> emit_loop rest args h'
      | Thrown h' \<Rightarrow> Thrown h')"

text \<open>\<open>Signal::emit(Args... args)\<close>.\<close>

definition Signal_emit ::
  "addr \<Rightarrow> 'a \<Rightarrow> ('f, 'a) heap \<Rightarrow> ('f, 'a) heap outcome option" where
  "Signal_emit s args h =
     (case signals h s of
        None \<Rightarrow> None
      | Some sg \<Rightarrow> Some (emit_loop (Signal_m_connections sg) args h))"

text \<open>\<open>Signal::operator()(Args... args)\<close>, whose loop the source writes out a second time.\<close>

fun call_loop ::
  "(addr \<times> 'f callable) list \<Rightarrow> 'a \<Rightarrow> ('f, 'a) heap \<Rightarrow> ('f, 'a) heap outcome" where
  "call_loop [] args h = Returned h"
| "call_loop (kv # rest) args h =
     (case invoke (snd kv) args h of
        Returned h' \<Rightarrow> call_loop rest args h'
      | Thrown h' \<Rightarrow> Thrown h')"

definition Signal_call ::
  "addr \<Rightarrow> 'a \<Rightarrow> ('f, 'a) heap \<Rightarrow> ('f, 'a) heap outcome option" where
  "Signal_call s args h =
     (case signals h s of
        None \<Rightarrow> None
      | Some sg \<Rightarrow> Some (call_loop (Signal_m_connections sg) args h))"

text \<open>\<open>Signal::count()\<close>: \<open>m_connections.size()\<close>.\<close>

definition Signal_count :: "addr \<Rightarrow> ('f, 'a) heap \<Rightarrow> nat option" where
  "Signal_count s h =
     (case signals h s of
        None \<Rightarrow> None
      | Some sg \<Rightarrow> Some (length (Signal_m_connections sg)))"

subsection \<open>Connection\<close>

text \<open>
  \<open>Connection::disconnect()\<close>: when \<open>m_pSignal\<close> is set, the signal's \<open>disconnect\<close> is called
  with a handle to \<open>this\<close> whose deleter does nothing. The function itself assigns no
  field.
\<close>

definition Connection_disconnect :: "addr \<Rightarrow> ('f, 'a) heap \<Rightarrow> ('f, 'a) heap option" where
  "Connection_disconnect c h =
     (case connections h c of
        None \<Rightarrow> None
      | Some cn \<Rightarrow>
          (case m_pSignal cn of
             None \<Rightarrow> Some h
           | Some pTmpSignal \<Rightarrow> Signal_disconnect pTmpSignal c h))"

subsection \<open>Slot\<close>

text \<open>
  The assignments of the loop body of \<open>Slot::~Slot()\<close> that precede the call of
  \<open>disconnect\<close>: \<open>conn->m_pSlot = nullptr; conn->m_pSignal = nullptr\<close>.
\<close>

definition Slot_dtor_clear :: "addr \<Rightarrow> Connection \<Rightarrow> ('f, 'a) heap \<Rightarrow> ('f, 'a) heap" where
  "Slot_dtor_clear conn cn h =
     h\<lparr>connections := (connections h)(conn \<mapsto> cn\<lparr>m_pSlot := None, m_pSignal := None\<rparr>)\<rparr>"

text \<open>The loop of \<open>Slot::~Slot()\<close> over the set.\<close>

fun Slot_dtor_loop :: "addr list \<Rightarrow> ('f, 'a) heap \<Rightarrow> ('f, 'a) heap option" where
  "Slot_dtor_loop [] h = Some h"
| "Slot_dtor_loop (conn # rest) h =
     (case connections h conn of
        None \<Rightarrow> None
      | Some cn \<Rightarrow>
          (case m_pSignal cn of
             None \<Rightarrow> Slot_dtor_loop rest h
           | Some pTempSignal \<Rightarrow>
               (case Signal_disconnect pTempSignal conn (Slot_dtor_clear conn cn h) of
                  None \<Rightarrow> None
                | Some h' \<Rightarrow> Slot_dtor_loop rest h')))"

text \<open>
  The body of \<open>Slot::~Slot()\<close>. The loop runs over the set as it is on entry; that the
  body never changes the set it iterates over is lemma \<open>Slot_dtor_loop_slots\<close> below.
\<close>

definition Slot_dtor_body :: "addr \<Rightarrow> ('f, 'a) heap \<Rightarrow> ('f, 'a) heap option" where
  "Slot_dtor_body slot h =
     (case slots h slot of
        None \<Rightarrow> None
      | Some so \<Rightarrow> Slot_dtor_loop (Slot_m_connections so) h)"

text \<open>Destroying a Slot: the destructor's body, after which the members (the set and its
  handles) are released with the object.\<close>

definition Slot_dtor :: "addr \<Rightarrow> ('f, 'a) heap \<Rightarrow> ('f, 'a) heap option" where
  "Slot_dtor slot h =
     (case Slot_dtor_body slot h of
        None \<Rightarrow> None
      | Some h' \<Rightarrow> Some (h'\<lparr>slots := (slots h')(slot := None)\<rparr>))"

subsection \<open>Observations\<close>

text \<open>The invocations performed between two states: what the later trace adds to the
  earlier one.\<close>

definition emitted :: "('f, 'a) heap \<Rightarrow> ('f, 'a) heap \<Rightarrow> ('f callable \<times> 'a) list" where
  "emitted h h' = drop (length (calls h)) (calls h')"

text \<open>A callable returns when it is invoked: it is not an empty \<open>std::function\<close>, and
  it does not throw for these arguments.\<close>

definition returns :: "('f, 'a) heap \<Rightarrow> 'a \<Rightarrow> 'f callable \<Rightarrow> bool" where
  "returns h args f \<longleftrightarrow> f \<noteq> Function None \<and> \<not> throws h f args"

text \<open>
  Of a list of callables, those that run when they are called one after the other until
  a call throws: the ones before the first that does not return, and that one as well
  if it is a listener that throws (an empty \<open>std::function\<close> runs nothing).
\<close>

definition invoked :: "('f, 'a) heap \<Rightarrow> 'a \<Rightarrow> 'f callable list \<Rightarrow> 'f callable list" where
  "invoked h args fs =
     takeWhile (returns h args) fs @
     (case dropWhile (returns h args) fs of
        [] \<Rightarrow> []
      | f # rest \<Rightarrow> if f = Function None then [] else [f])"

subsection \<open>The contract of \<open>Connection::disconnect\<close>\<close>

text \<open>
  The specification's wording of \<open>Connection::disconnect\<close>, for comparison with the
  function of the source: when \<open>owningSignal\<close> is set, take a snapshot of it, set the
  field to null, then call the signal's \<open>disconnect\<close> with the connection itself; when
  it is null, do nothing.
\<close>

definition Connection_disconnect_contract ::
  "addr \<Rightarrow> ('f, 'a) heap \<Rightarrow> ('f, 'a) heap option" where
  "Connection_disconnect_contract c h =
     (case connections h c of
        None \<Rightarrow> None
      | Some cn \<Rightarrow>
          (case m_pSignal cn of
             None \<Rightarrow> Some h
           | Some owningSignal \<Rightarrow>
               Signal_disconnect owningSignal c
                 (h\<lparr>connections := (connections h)(c \<mapsto> cn\<lparr>m_pSignal := None\<rparr>)\<rparr>)))"

subsection \<open>Consistent states\<close>

text \<open>
  The states the library keeps its objects in, as far as the functions above rely on it.
  A table entry's connection exists, points back at the signal, and points at the slot
  its bound method belongs to; a connection whose \<open>m_pSignal\<close> is set is a key of that
  signal's table and, when \<open>m_pSlot\<close> is set as well, an element of that slot's set;
  an element of a slot's set points at the slot and at some signal. Keys and elements
  are not repeated.
\<close>

definition entry_ok :: "('f, 'a) heap \<Rightarrow> addr \<Rightarrow> addr \<times> 'f callable \<Rightarrow> bool" where
  "entry_ok h s kv =
     (case connections h (fst kv) of
        None \<Rightarrow> False
      | Some cn \<Rightarrow>
          m_pSignal cn = Some s \<and>
          (case snd kv of
             Function f \<Rightarrow> True
           | BoundMethod slot f \<Rightarrow> m_pSlot cn = Some slot))"

definition signal_ok :: "('f, 'a) heap \<Rightarrow> addr \<Rightarrow> 'f Signal \<Rightarrow> bool" where
  "signal_ok h s sg \<longleftrightarrow>
     distinct (map fst (Signal_m_connections sg)) \<and>
     (\<forall>kv \<in> set (Signal_m_connections sg). entry_ok h s kv)"

definition connection_ok :: "('f, 'a) heap \<Rightarrow> addr \<Rightarrow> Connection \<Rightarrow> bool" where
  "connection_ok h c cn =
     (case m_pSignal cn of
        None \<Rightarrow> True
      | Some s \<Rightarrow>
          (case signals h s of
             None \<Rightarrow> False
           | Some sg \<Rightarrow> c \<in> fst ` set (Signal_m_connections sg)) \<and>
          (case m_pSlot cn of
             None \<Rightarrow> True
           | Some slot \<Rightarrow>
               (case slots h slot of
                  None \<Rightarrow> False
                | Some so \<Rightarrow> c \<in> set (Slot_m_connections so))))"

definition member_ok :: "('f, 'a) heap \<Rightarrow> addr \<Rightarrow> addr \<Rightarrow> bool" where
  "member_ok h slot c =
     (case connections h c of
        None \<Rightarrow> False
      | Some cn \<Rightarrow> m_pSlot cn = Some slot \<and> m_pSignal cn \<noteq> None)"

definition slot_ok :: "('f, 'a) heap \<Rightarrow> addr \<Rightarrow> Slot \<Rightarrow> bool" where
  "slot_ok h slot so \<longleftrightarrow>
     distinct (Slot_m_connections so) \<and>
     (\<forall>c \<in> set (Slot_m_connections so). member_ok h slot c)"

definition heap_ok :: "('f, 'a) heap \<Rightarrow> bool" where
  "heap_ok h \<longleftrightarrow>
     (\<forall>s \<in> dom (signals h). signal_ok h s (the (signals h s))) \<and>
     (\<forall>c \<in> dom (connections h). connection_ok h c (the (connections h c))) \<and>
     (\<forall>slot \<in> dom (slots h). slot_ok h slot (the (slots h slot)))"

text \<open>What the loop of \<open>Slot::~Slot()\<close> needs of the connections it visits: each exists,
  points at a signal that exists, and is a key of no other signal's table.\<close>

definition dtor_ready :: "addr list \<Rightarrow> ('f, 'a) heap \<Rightarrow> bool" where
  "dtor_ready cs h \<longleftrightarrow>
     (\<forall>c \<in> set cs. \<exists>cn s sg.
        connections h c = Some cn \<and> m_pSignal cn = Some s \<and> signals h s = Some sg \<and>
        (\<forall>s' sg'. signals h s' = Some sg' \<longrightarrow> c \<in> fst ` set (Signal_m_connections sg') \<longrightarrow> s' = s))"

text \<open>The connections in a slot's set that are registered on signal \<open>s\<close>.\<close>

definition slot_connections_on :: "('f, 'a) heap \<Rightarrow> Slot \<Rightarrow> addr \<Rightarrow> addr list" where
  "slot_connections_on h so s =
     filter (\<lambda>c. case connections h c of None \<Rightarrow> False | Some cn \<Rightarrow> m_pSignal cn = Some s)
       (Slot_m_connections so)"

text \<open>The slot a connection points at, read through the store.\<close>

definition slot_of :: "('f, 'a) heap \<Rightarrow> addr \<Rightarrow> addr option" where
  "slot_of h c = (case connections h c of None \<Rightarrow> None | Some cn \<Rightarrow> m_pSlot cn)"

text \<open>What the loop of \<open>disconnectAll\<close> needs of the connections it visits: each exists,
  and the slot it points at, if any, exists.\<close>

definition disconnectAll_ready :: "addr list \<Rightarrow> ('f, 'a) heap \<Rightarrow> bool" where
  "disconnectAll_ready cs h \<longleftrightarrow>
     (\<forall>c \<in> set cs. c \<in> dom (connections h) \<and>
        (case slot_of h c of None \<Rightarrow> True | Some sl \<Rightarrow> sl \<in> dom (slots h)))"

text \<open>
  The specification's invariant of \<open>targetSlot\<close>: for every connection and every slot,
  \<open>m_pSlot\<close> points at the slot if and only if the slot exists and has the connection in
  its set.
\<close>

definition targetSlot_invariant :: "('f, 'a) heap \<Rightarrow> bool" where
  "targetSlot_invariant h \<longleftrightarrow>
     (\<forall>c \<in> dom (connections h).
        (case m_pSlot (the (connections h c)) of
           None \<Rightarrow> True
         | Some sl \<Rightarrow>
             (case slots h sl of
                None \<Rightarrow> False
              | Some so \<Rightarrow> c \<in> set (Slot_m_connections so))) \<and>
        (\<forall>sl \<in> dom (slots h).
           c \<in> set (Slot_m_connections (the (slots h sl))) \<longrightarrow>
             m_pSlot (the (connections h c)) = Some sl))"

subsection \<open>The interface as a whole\<close>

text \<open>
  The implicit constructors: a new \<open>Signal\<close> has an empty table and a new \<open>Slot\<close> an empty
  set. The address is the one the caller constructs the object at.
\<close>

definition Signal_ctor :: "addr \<Rightarrow> ('f, 'a) heap \<Rightarrow> ('f, 'a) heap option" where
  "Signal_ctor s h = Some (h\<lparr>signals := (signals h)(s \<mapsto> \<lparr>Signal_m_connections = []\<rparr>)\<rparr>)"

definition Slot_ctor :: "addr \<Rightarrow> ('f, 'a) heap \<Rightarrow> ('f, 'a) heap option" where
  "Slot_ctor slot h = Some (h\<lparr>slots := (slots h)(slot \<mapsto> \<lparr>Slot_m_connections = []\<rparr>)\<rparr>)"

text \<open>
  What a single-threaded client can do with the library, and what C++ asks of the client
  for each call: the object the call is made on is alive, and a newly constructed object
  gets an address that no object of its kind has. \<open>run\<close> performs a sequence of calls and
  stops with \<open>None\<close> at a call that is not permitted or whose behaviour is undefined; a
  client that gets an exception out of \<open>emit\<close> catches it and goes on.
\<close>

datatype ('f, 'a) operation =
    New_Signal addr
  | New_Slot addr
  | Connect addr addr "'f option"
  | Connect_Slot addr addr addr 'f
  | Disconnect_Handle addr
  | Disconnect addr addr
  | Disconnect_All addr
  | Emit addr 'a
  | Call addr 'a
  | Delete_Signal addr
  | Delete_Slot addr

fun perform :: "('f, 'a) operation \<Rightarrow> ('f, 'a) heap \<Rightarrow> ('f, 'a) heap option" where
  "perform (New_Signal s) h = Signal_ctor s h"
| "perform (New_Slot slot) h = Slot_ctor slot h"
| "perform (Connect s p f) h = Signal_connect s p f h"
| "perform (Connect_Slot s p slot f) h = Signal_connect_slot s p slot f h"
| "perform (Disconnect_Handle c) h = Connection_disconnect c h"
| "perform (Disconnect s c) h = Signal_disconnect s c h"
| "perform (Disconnect_All s) h = Signal_disconnectAll s h"
| "perform (Emit s args) h = map_option state_of (Signal_emit s args h)"
| "perform (Call s args) h = map_option state_of (Signal_call s args h)"
| "perform (Delete_Signal s) h = Signal_dtor s h"
| "perform (Delete_Slot slot) h = Slot_dtor slot h"

fun permitted :: "('f, 'a) operation \<Rightarrow> ('f, 'a) heap \<Rightarrow> bool" where
  "permitted (New_Signal s) h \<longleftrightarrow> s \<notin> dom (signals h)"
| "permitted (New_Slot slot) h \<longleftrightarrow> slot \<notin> dom (slots h)"
| "permitted (Connect s p f) h \<longleftrightarrow> s \<in> dom (signals h) \<and> p \<notin> dom (connections h)"
| "permitted (Connect_Slot s p slot f) h \<longleftrightarrow>
     s \<in> dom (signals h) \<and> slot \<in> dom (slots h) \<and> p \<notin> dom (connections h)"
| "permitted (Disconnect_Handle c) h \<longleftrightarrow> c \<in> dom (connections h)"
| "permitted (Disconnect s c) h \<longleftrightarrow> s \<in> dom (signals h)"
| "permitted (Disconnect_All s) h \<longleftrightarrow> s \<in> dom (signals h)"
| "permitted (Emit s args) h \<longleftrightarrow> s \<in> dom (signals h)"
| "permitted (Call s args) h \<longleftrightarrow> s \<in> dom (signals h)"
| "permitted (Delete_Signal s) h \<longleftrightarrow> s \<in> dom (signals h)"
| "permitted (Delete_Slot slot) h \<longleftrightarrow> slot \<in> dom (slots h)"

fun run :: "('f, 'a) operation list \<Rightarrow> ('f, 'a) heap \<Rightarrow> ('f, 'a) heap option" where
  "run [] h = Some h"
| "run (op # ops) h =
     (if permitted op h
      then (case perform op h of None \<Rightarrow> None | Some h' \<Rightarrow> run ops h')
      else None)"

definition empty_heap :: "('f, 'a) heap" where
  "empty_heap =
     \<lparr>connections = Map.empty, slots = Map.empty, signals = Map.empty, calls = [],
      throws = (\<lambda>f args. False)\<rparr>"

subsection \<open>Example states\<close>

text \<open>A signal at address 0 with two connections: connection 1 to a free function,
  connection 2 to a method of the slot object at address 0. No listener throws.\<close>

definition two_listeners :: "(string, int) heap" where
  "two_listeners =
     \<lparr>connections = [1 \<mapsto> \<lparr>m_pSignal = Some 0, m_pSlot = None\<rparr>,
                      2 \<mapsto> \<lparr>m_pSignal = Some 0, m_pSlot = Some 0\<rparr>],
      slots = [0 \<mapsto> \<lparr>Slot_m_connections = [2]\<rparr>],
      signals = [0 \<mapsto> \<lparr>Signal_m_connections =
                   [(1, Function (Some ''listener'')), (2, BoundMethod 0 ''Foo::bar'')]\<rparr>],
      calls = [],
      throws = (\<lambda>f args. False)\<rparr>"

text \<open>The start of the README's last example: a \<open>Signal<int>\<close> at address 0 with an empty
  table, and the object \<open>foobar\<close> (a \<open>Foo\<close>, which derives from \<open>Slot\<close>) at address 0 with
  an empty set.\<close>

definition fresh_signal_and_foobar :: "(string, int) heap" where
  "fresh_signal_and_foobar =
     \<lparr>connections = Map.empty,
      slots = [0 \<mapsto> \<lparr>Slot_m_connections = []\<rparr>],
      signals = [0 \<mapsto> \<lparr>Signal_m_connections = []\<rparr>],
      calls = [],
      throws = (\<lambda>f args. False)\<rparr>"

text \<open>A signal at address 0 whose first connection holds an empty \<open>std::function\<close> and
  whose second holds a listener.\<close>

definition empty_function_first :: "(string, int) heap" where
  "empty_function_first =
     \<lparr>connections = [1 \<mapsto> \<lparr>m_pSignal = Some 0, m_pSlot = None\<rparr>,
                      2 \<mapsto> \<lparr>m_pSignal = Some 0, m_pSlot = None\<rparr>],
      slots = Map.empty,
      signals = [0 \<mapsto> \<lparr>Signal_m_connections =
                   [(1, Function None), (2, Function (Some ''listener''))]\<rparr>],
      calls = [],
      throws = (\<lambda>f args. False)\<rparr>"

text \<open>The same signal with two listeners, of which the first throws.\<close>

definition throwing_listener_first :: "(string, int) heap" where
  "throwing_listener_first =
     \<lparr>connections = [1 \<mapsto> \<lparr>m_pSignal = Some 0, m_pSlot = None\<rparr>,
                      2 \<mapsto> \<lparr>m_pSignal = Some 0, m_pSlot = None\<rparr>],
      slots = Map.empty,
      signals = [0 \<mapsto> \<lparr>Signal_m_connections =
                   [(1, Function (Some ''thrower'')), (2, Function (Some ''listener''))]\<rparr>],
      calls = [],
      throws = (\<lambda>f args. f = Function (Some ''thrower''))\<rparr>"

section \<open>Reading consistency off a state\<close>

lemmas heap_ok_defs =
  heap_ok_def signal_ok_def entry_ok_def connection_ok_def slot_ok_def member_ok_def

lemma heap_ok_two_listeners: "heap_ok two_listeners"
  by (simp add: heap_ok_defs two_listeners_def)

lemma heap_ok_signal:
  assumes "heap_ok h" "signals h s = Some sg"
  shows "signal_ok h s sg"
proof -
  from assms(2) have "s \<in> dom (signals h)" by (rule domI)
  with assms(1) have "signal_ok h s (the (signals h s))" by (simp add: heap_ok_def)
  with assms(2) show ?thesis by simp
qed

lemma heap_ok_conn:
  assumes "heap_ok h" "connections h c = Some cn"
  shows "connection_ok h c cn"
proof -
  from assms(2) have "c \<in> dom (connections h)" by (rule domI)
  with assms(1) have "connection_ok h c (the (connections h c))" by (simp add: heap_ok_def)
  with assms(2) show ?thesis by simp
qed

lemma heap_ok_slot:
  assumes "heap_ok h" "slots h slot = Some so"
  shows "slot_ok h slot so"
proof -
  from assms(2) have "slot \<in> dom (slots h)" by (rule domI)
  with assms(1) have "slot_ok h slot (the (slots h slot))" by (simp add: heap_ok_def)
  with assms(2) show ?thesis by simp
qed

lemma heap_okI:
  assumes "\<And>s sg. signals h s = Some sg \<Longrightarrow> signal_ok h s sg"
    and "\<And>c cn. connections h c = Some cn \<Longrightarrow> connection_ok h c cn"
    and "\<And>slot so. slots h slot = Some so \<Longrightarrow> slot_ok h slot so"
  shows "heap_ok h"
  using assms by (auto simp: heap_ok_def)

lemma entry_okD:
  assumes "entry_ok h s (c, f)"
  shows "\<exists>cn. connections h c = Some cn \<and> m_pSignal cn = Some s \<and>
           (\<forall>slot m. f = BoundMethod slot m \<longrightarrow> m_pSlot cn = Some slot)"
  using assms by (auto simp: entry_ok_def split: option.splits callable.splits)

lemma connection_okD:
  assumes "connection_ok h c cn" "m_pSignal cn = Some s"
  shows "\<exists>sg. signals h s = Some sg \<and> c \<in> fst ` set (Signal_m_connections sg)"
    and "\<And>slot. m_pSlot cn = Some slot \<Longrightarrow>
            \<exists>so. slots h slot = Some so \<and> c \<in> set (Slot_m_connections so)"
  using assms by (auto simp: connection_ok_def split: option.splits)

lemma member_okD:
  assumes "member_ok h slot c"
  shows "\<exists>cn s. connections h c = Some cn \<and> m_pSlot cn = Some slot \<and> m_pSignal cn = Some s"
  using assms by (auto simp: member_ok_def split: option.splits)

section \<open>Facts about the containers\<close>

lemma map_erase_absent: "c \<notin> fst ` set m \<Longrightarrow> map_erase c m = m"
  by (induction m) (auto simp: map_erase_def)

lemma length_map_erase:
  "distinct (map fst m) \<Longrightarrow> c \<in> fst ` set m \<Longrightarrow> Suc (length (map_erase c m)) = length m"
proof (induction m)
  case Nil
  then show ?case by simp
next
  case (Cons kv m)
  show ?case
  proof (cases "fst kv = c")
    case True
    with Cons.prems have "c \<notin> fst ` set m" by auto
    from map_erase_absent [OF this] True show ?thesis by (simp add: map_erase_def)
  next
    case False
    with Cons show ?thesis by (auto simp: map_erase_def)
  qed
qed

lemma map_erase_keys: "fst ` set (map_erase c m) = fst ` set m - {c}"
  by (auto simp: map_erase_def)

lemma set_map_insert:
  "p \<notin> fst ` set m \<Longrightarrow> set (map_insert p f m) = insert (p, f) (set m)"
  by (simp add: map_insert_def set_insort_key)

lemma length_map_insert:
  "p \<notin> fst ` set m \<Longrightarrow> length (map_insert p f m) = Suc (length m)"
  by (simp add: map_insert_def)

lemma distinct_map_insert:
  assumes "p \<notin> fst ` set m" and "distinct (map fst m)"
  shows "distinct (map fst (map_insert p f m))"
proof -
  from assms(2) have d: "distinct m" and inj: "inj_on fst (set m)"
    by (simp_all add: distinct_map)
  from assms(1) have "(p, f) \<notin> set m" by force
  with d have "distinct (insort_key fst (p, f) m)" by (simp add: distinct_insort)
  moreover from inj assms(1) have "inj_on fst (insert (p, f) (set m))"
    by (auto simp: image_iff)
  ultimately show ?thesis using assms(1)
    by (simp add: map_insert_def distinct_map set_insort_key)
qed

lemma set_set_insert: "set (set_insert p cs) = insert p (set cs)"
  by (auto simp: set_insert_def set_insort_key)

lemma distinct_set_insert: "distinct cs \<Longrightarrow> distinct (set_insert p cs)"
  by (simp add: set_insert_def distinct_insort)

lemma set_erase_absent: "c \<notin> set cs \<Longrightarrow> set_erase c cs = cs"
  by (induction cs) (auto simp: set_erase_def)

lemma set_set_erase: "set (set_erase c cs) = set cs - {c}"
  by (auto simp: set_erase_def)

lemma distinct_set_erase: "distinct cs \<Longrightarrow> distinct (set_erase c cs)"
  by (simp add: set_erase_def)

lemma distinct_map_erase: "distinct (map fst m) \<Longrightarrow> distinct (map fst (map_erase c m))"
  by (simp add: map_erase_def distinct_map_filter)

section \<open>Emission\<close>

lemma invoke_frame:
  "connections (state_of (invoke f args h)) = connections h \<and>
   slots (state_of (invoke f args h)) = slots h \<and>
   signals (state_of (invoke f args h)) = signals h \<and>
   throws (state_of (invoke f args h)) = throws h"
  by (simp add: invoke_def)

lemma emit_loop_frame:
  "connections (state_of (emit_loop m args h)) = connections h \<and>
   slots (state_of (emit_loop m args h)) = slots h \<and>
   signals (state_of (emit_loop m args h)) = signals h \<and>
   throws (state_of (emit_loop m args h)) = throws h"
proof (induction m arbitrary: h)
  case Nil
  show ?case by simp
next
  case (Cons kv m)
  show ?case
  proof (cases "invoke (snd kv) args h")
    case (Returned h1)
    with invoke_frame [of "snd kv" args h] Cons.IH [of h1] show ?thesis by simp
  next
    case (Thrown h1)
    with invoke_frame [of "snd kv" args h] show ?thesis by simp
  qed
qed

lemma invoked_same_throws:
  assumes "throws h' = throws h"
  shows "invoked h' args fs = invoked h args fs"
proof -
  from assms have "returns h' args = returns h args"
    by (simp add: fun_eq_iff returns_def)
  then show ?thesis by (simp add: invoked_def)
qed

lemma invoked_Cons:
  "invoked h args (f # fs) =
     (if f = Function None then []
      else if throws h f args then [f]
      else f # invoked h args fs)"
  by (simp add: invoked_def returns_def)

lemma emit_loop_calls:
  "calls (state_of (emit_loop m args h)) =
     calls h @ map (\<lambda>f. (f, args)) (invoked h args (map snd m))"
proof (induction m arbitrary: h)
  case Nil
  show ?case by (simp add: invoked_def)
next
  case (Cons kv m)
  let ?h1 = "h\<lparr>calls := calls h @ [(snd kv, args)]\<rparr>"
  show ?case
  proof (cases "returns h args (snd kv)")
    case True
    then have step: "invoke (snd kv) args h = Returned ?h1"
      by (simp add: invoke_def returns_def)
    have "invoked ?h1 args (map snd m) = invoked h args (map snd m)"
      by (rule invoked_same_throws) simp
    with step Cons.IH [of ?h1] True show ?thesis
      by (simp add: invoked_Cons returns_def)
  next
    case False
    then show ?thesis
      by (auto simp: invoke_def returns_def invoked_Cons)
  qed
qed

lemma emit_loop_returns:
  "(\<exists>h'. emit_loop m args h = Returned h') \<longleftrightarrow> (\<forall>kv \<in> set m. returns h args (snd kv))"
proof (induction m arbitrary: h)
  case Nil
  show ?case by simp
next
  case (Cons kv m)
  let ?h1 = "h\<lparr>calls := calls h @ [(snd kv, args)]\<rparr>"
  show ?case
  proof (cases "returns h args (snd kv)")
    case True
    then have step: "invoke (snd kv) args h = Returned ?h1"
      by (simp add: invoke_def returns_def)
    have "\<And>f. returns ?h1 args f = returns h args f" by (simp add: returns_def)
    with step Cons.IH [of ?h1] True show ?thesis by simp
  next
    case False
    then show ?thesis by (auto simp: invoke_def returns_def)
  qed
qed

lemma invoked_all: "\<forall>f \<in> set fs. returns h args f \<Longrightarrow> invoked h args fs = fs"
  by (induction fs) (simp_all add: invoked_def)

lemma invoked_prefix: "\<exists>rest. fs = invoked h args fs @ rest"
proof (induction fs)
  case Nil
  show ?case by (simp add: invoked_def)
next
  case (Cons f fs)
  then show ?case by (auto simp: invoked_Cons)
qed

lemma set_invoked: "set (invoked h args fs) \<subseteq> set fs"
proof -
  from invoked_prefix [of fs h args] obtain rest where "fs = invoked h args fs @ rest" ..
  then have "set fs = set (invoked h args fs) \<union> set rest" by (metis set_append)
  then show ?thesis by blast
qed

lemma count_list_deliveries:
  "count_list (map (\<lambda>kv. (snd kv, args)) m) (f, a) =
     (if a = args then count_list (map snd m) f else 0)"
  by (induction m) auto

lemma emitted_Signal_emit:
  assumes "signals h s = Some sg" and "Signal_emit s args h = Some r"
  shows "emitted h (state_of r) =
     map (\<lambda>f. (f, args)) (invoked h args (map snd (Signal_m_connections sg)))"
  using assms by (auto simp: Signal_emit_def emitted_def emit_loop_calls)

lemma emitted_registered:
  assumes "signals h s = Some sg" and "Signal_emit s args h = Some r"
    and "(f, a) \<in> set (emitted h (state_of r))"
  shows "f \<in> snd ` set (Signal_m_connections sg) \<and> a = args"
proof -
  from emitted_Signal_emit [OF assms(1,2)] assms(3)
  have "f \<in> set (invoked h args (map snd (Signal_m_connections sg)))" and "a = args"
    by auto
  with set_invoked [of h args "map snd (Signal_m_connections sg)"] show ?thesis by auto
qed

lemma call_loop_emit_loop: "call_loop m args h = emit_loop m args h"
  by (induction m arbitrary: h) (simp_all split: outcome.splits)

lemma perform_Call: "perform (Call s args) h = perform (Emit s args) h"
  by (cases "signals h s") (simp_all add: Signal_call_def Signal_emit_def call_loop_emit_loop)

text \<open>
  Claim C3, as the code has it. \<open>emit(args...)\<close> on a live signal goes through the table
  in its order and calls each entry's callable with the arguments given, until a call
  does not return: an empty \<open>std::function\<close> throws without running anything, a listener
  may throw after it has run. The callables that run are a front part of the table, each
  run once for its entry and with \<open>args\<close>; the entries behind the one that threw are not
  reached, and the exception leaves \<open>emit\<close>. \<open>emit\<close> returns exactly when every registered
  callable returns, and then the invocations are exactly one per entry of the table: a
  callable is invoked with \<open>args\<close> as many times as it is registered and never with
  anything else, and a callable that is not registered is not invoked.
\<close>

theorem Signal_emit_delivers:
  assumes "signals h s = Some sg"
  shows "\<exists>r. Signal_emit s args h = Some r \<and>
           emitted h (state_of r) =
             map (\<lambda>f. (f, args)) (invoked h args (map snd (Signal_m_connections sg))) \<and>
           (\<exists>rest. map snd (Signal_m_connections sg) =
              invoked h args (map snd (Signal_m_connections sg)) @ rest) \<and>
           ((\<exists>h'. r = Returned h') \<longleftrightarrow>
              (\<forall>kv \<in> set (Signal_m_connections sg). returns h args (snd kv))) \<and>
           ((\<forall>kv \<in> set (Signal_m_connections sg). returns h args (snd kv)) \<longrightarrow>
              emitted h (state_of r) = map (\<lambda>kv. (snd kv, args)) (Signal_m_connections sg) \<and>
              Some (length (emitted h (state_of r))) = Signal_count s h \<and>
              (\<forall>f a. count_list (emitted h (state_of r)) (f, a) =
                 (if a = args then count_list (map snd (Signal_m_connections sg)) f else 0)))"
proof -
  let ?m = "Signal_m_connections sg"
  define r where "r = emit_loop ?m args h"
  have run: "Signal_emit s args h = Some r"
    using assms by (simp add: Signal_emit_def r_def)
  note em = emitted_Signal_emit [OF assms run]
  have ret: "(\<exists>h'. r = Returned h') \<longleftrightarrow> (\<forall>kv \<in> set ?m. returns h args (snd kv))"
    unfolding r_def by (rule emit_loop_returns)
  have all: "(\<forall>kv \<in> set ?m. returns h args (snd kv)) \<longrightarrow>
      emitted h (state_of r) = map (\<lambda>kv. (snd kv, args)) ?m \<and>
      Some (length (emitted h (state_of r))) = Signal_count s h \<and>
      (\<forall>f a. count_list (emitted h (state_of r)) (f, a) =
         (if a = args then count_list (map snd ?m) f else 0))"
  proof
    assume "\<forall>kv \<in> set ?m. returns h args (snd kv)"
    then have "invoked h args (map snd ?m) = map snd ?m"
      by (intro invoked_all) simp
    with em have e: "emitted h (state_of r) = map (\<lambda>kv. (snd kv, args)) ?m"
      by (simp add: comp_def)
    with assms show "emitted h (state_of r) = map (\<lambda>kv. (snd kv, args)) ?m \<and>
      Some (length (emitted h (state_of r))) = Signal_count s h \<and>
      (\<forall>f a. count_list (emitted h (state_of r)) (f, a) =
         (if a = args then count_list (map snd ?m) f else 0))"
      by (simp add: Signal_count_def count_list_deliveries)
  qed
  from run em invoked_prefix [of "map snd ?m" h args] ret all show ?thesis by blast
qed

theorem Signal_emit_delivers_witness:
  "signals two_listeners 0 = Some \<lparr>Signal_m_connections =
       [(1, Function (Some ''listener'')), (2, BoundMethod 0 ''Foo::bar'')]\<rparr> \<and>
   (\<exists>h'. Signal_emit 0 10 two_listeners = Some (Returned h') \<and>
      emitted two_listeners h' =
        [(Function (Some ''listener''), 10), (BoundMethod 0 ''Foo::bar'', 10)])"
proof -
  let ?sg = "\<lparr>Signal_m_connections =
       [(1, Function (Some ''listener'')), (2, BoundMethod 0 ''Foo::bar'')]\<rparr>"
  have sg: "signals two_listeners 0 = Some ?sg"
    by (simp add: two_listeners_def)
  have all: "\<forall>kv \<in> set (Signal_m_connections ?sg). returns two_listeners 10 (snd kv)"
    by (simp add: returns_def two_listeners_def)
  from Signal_emit_delivers [OF sg, of 10] obtain r where
    run: "Signal_emit 0 10 two_listeners = Some r"
    and ret: "(\<exists>h'. r = Returned h') \<longleftrightarrow>
       (\<forall>kv \<in> set (Signal_m_connections ?sg). returns two_listeners 10 (snd kv))"
    and em: "(\<forall>kv \<in> set (Signal_m_connections ?sg). returns two_listeners 10 (snd kv)) \<longrightarrow>
       emitted two_listeners (state_of r) =
         map (\<lambda>kv. (snd kv, 10)) (Signal_m_connections ?sg)"
    by blast
  from ret all obtain h' where r: "r = Returned h'" by blast
  from em all r have "emitted two_listeners h' =
      [(Function (Some ''listener''), 10), (BoundMethod 0 ''Foo::bar'', 10)]"
    by simp
  with run r sg show ?thesis by blast
qed

text \<open>
  Claim C3 as stated says that every registered callable is invoked exactly once, for
  every state of the signal. \<open>connect\<close> accepts an empty \<open>std::function\<close>, and a client
  gets to \<open>empty_function_first\<close> with two calls of it. There \<open>emit(10)\<close> ends with the
  exception of the first entry, and the listener of the second entry, which is
  registered, has not been invoked: the trace is as empty as before.
\<close>

theorem emit_stops_at_empty_function:
  "run [New_Signal 0, Connect 0 1 None, Connect 0 2 (Some ''listener'')] empty_heap =
     Some empty_function_first \<and>
   Signal_count 0 empty_function_first = Some 2 \<and>
   Signal_emit 0 10 empty_function_first = Some (Thrown empty_function_first) \<and>
   calls empty_function_first = []"
  by (simp add: empty_function_first_def empty_heap_def Signal_ctor_def Signal_connect_def
      map_insert_def Signal_count_def Signal_emit_def invoke_def)

text \<open>A listener that throws has the same effect on the entries behind it; it has run
  itself, and the trace says so.\<close>

lemma emit_stops_at_throwing_listener:
  "run [New_Signal 0, Connect 0 1 (Some ''thrower''), Connect 0 2 (Some ''listener'')]
     (empty_heap\<lparr>throws := (\<lambda>f args. f = Function (Some ''thrower''))\<rparr>) =
     Some throwing_listener_first \<and>
   Signal_emit 0 10 throwing_listener_first =
     Some (Thrown (throwing_listener_first\<lparr>calls := [(Function (Some ''thrower''), 10)]\<rparr>))"
  by (simp add: throwing_listener_first_def empty_heap_def Signal_ctor_def Signal_connect_def
      map_insert_def Signal_emit_def invoke_def)

text \<open>
  Claim C9. The call operator and \<open>emit\<close> are the same function of the state and the
  arguments: the same result, hence the same invocations in the same order, the same
  exception if there is one, and the same registry afterwards.
\<close>

theorem Signal_call_is_emit: "Signal_call s args h = Signal_emit s args h"
  by (simp add: Signal_call_def Signal_emit_def call_loop_emit_loop split: option.splits)

text \<open>
  Claim C10. \<open>emit\<close> on a live signal changes nothing but the trace (the callables being
  invoked as opaque primitives that do not call back into the library), whether it
  returns or a callable throws: all connections with their back pointers, all slot sets
  and all tables are as before, and so is \<open>count()\<close>.
\<close>

theorem Signal_emit_frame:
  assumes "signals h s = Some sg"
  shows "\<exists>r. Signal_emit s args h = Some r \<and>
           connections (state_of r) = connections h \<and> slots (state_of r) = slots h \<and>
           signals (state_of r) = signals h \<and>
           Signal_count s (state_of r) = Signal_count s h"
  using assms by (simp add: Signal_emit_def emit_loop_frame Signal_count_def)

theorem Signal_emit_frame_witness:
  "signals two_listeners 0 = Some \<lparr>Signal_m_connections =
       [(1, Function (Some ''listener'')), (2, BoundMethod 0 ''Foo::bar'')]\<rparr> \<and>
   (\<exists>r. Signal_emit 0 10 two_listeners = Some r \<and>
      connections (state_of r) = connections two_listeners \<and>
      slots (state_of r) = slots two_listeners \<and>
      signals (state_of r) = signals two_listeners \<and>
      Signal_count 0 (state_of r) = Signal_count 0 two_listeners)"
proof -
  have sg: "signals two_listeners 0 = Some \<lparr>Signal_m_connections =
       [(1, Function (Some ''listener'')), (2, BoundMethod 0 ''Foo::bar'')]\<rparr>"
    by (simp add: two_listeners_def)
  from Signal_emit_frame [OF sg, of 10] sg show ?thesis by blast
qed

section \<open>Disconnecting\<close>

text \<open>
  Claim C6. \<open>Signal::disconnect\<close> with a handle that is not a key of the signal's
  table returns without changing anything: the state afterwards is the state before,
  so \<open>count()\<close> and the handle's two back pointers are as they were. (The handle may
  belong to another signal, may have been removed before, or may not be in the store
  at all.)
\<close>

theorem Signal_disconnect_absent:
  assumes "signals h s = Some sg" and "c \<notin> fst ` set (Signal_m_connections sg)"
  shows "\<exists>h'. Signal_disconnect s c h = Some h' \<and> h' = h \<and>
           Signal_count s h' = Signal_count s h \<and> connections h' c = connections h c"
  using assms by (simp add: Signal_disconnect_def)

theorem Signal_disconnect_absent_witness:
  "signals two_listeners 0 = Some \<lparr>Signal_m_connections =
       [(1, Function (Some ''listener'')), (2, BoundMethod 0 ''Foo::bar'')]\<rparr> \<and>
   3 \<notin> fst ` set [(1::nat, Function (Some ''listener'')), (2, BoundMethod 0 ''Foo::bar'')] \<and>
   Signal_disconnect 0 3 two_listeners = Some two_listeners"
proof -
  have sg: "signals two_listeners 0 = Some \<lparr>Signal_m_connections =
       [(1, Function (Some ''listener'')), (2, BoundMethod 0 ''Foo::bar'')]\<rparr>"
    by (simp add: two_listeners_def)
  have absent: "3 \<notin> fst ` set (Signal_m_connections \<lparr>Signal_m_connections =
       [(1::nat, Function (Some ''listener'')), (2, BoundMethod 0 ''Foo::bar'')]\<rparr>)"
    by simp
  from Signal_disconnect_absent [OF sg absent] sg absent show ?thesis by simp
qed

lemma Signal_disconnect_present:
  assumes ok: "heap_ok h" and sg: "signals h s = Some sg"
    and c: "c \<in> fst ` set (Signal_m_connections sg)"
  shows "\<exists>h1 cn. connections h c = Some cn \<and> m_pSignal cn = Some s \<and>
           Signal_disconnect s c h = Some h1 \<and>
           signals h1 = (signals h)(s \<mapsto>
              sg\<lparr>Signal_m_connections := map_erase c (Signal_m_connections sg)\<rparr>) \<and>
           connections h1 = (connections h)(c \<mapsto> \<lparr>m_pSignal = None, m_pSlot = None\<rparr>) \<and>
           calls h1 = calls h"
proof -
  from c obtain f where "(c, f) \<in> set (Signal_m_connections sg)" by auto
  with heap_ok_signal [OF ok sg] have "entry_ok h s (c, f)"
    by (auto simp: signal_ok_def)
  then obtain cn where cn: "connections h c = Some cn" "m_pSignal cn = Some s"
    by (auto dest: entry_okD)
  show ?thesis
  proof (cases "m_pSlot cn")
    case None
    with sg c cn show ?thesis
      by (cases cn) (simp add: Signal_disconnect_def)
  next
    case (Some slot)
    with connection_okD(2) [OF heap_ok_conn [OF ok cn(1)] cn(2)]
    obtain so where "slots h slot = Some so" by blast
    with Some sg c cn show ?thesis
      by (cases cn) (simp add: Signal_disconnect_def)
  qed
qed

text \<open>
  Claim C5. On a consistent state, for a connection \<open>c\<close> registered on signal \<open>s\<close>:
  the first \<open>disconnect\<close> (through the connection or through the signal, which give the
  same state) returns and takes \<open>count()\<close> from \<open>n + 1\<close> to \<open>n\<close>; it leaves both back
  pointers of \<open>c\<close> null; and a second \<open>disconnect\<close> of \<open>c\<close>, through either entry point,
  returns the state unchanged, so the count stays \<open>n\<close>.
\<close>

theorem disconnect_idempotent:
  assumes "heap_ok h" and "connections h c = Some cn" and "m_pSignal cn = Some s"
  shows "\<exists>h1 n. Connection_disconnect c h = Some h1 \<and>
           Signal_disconnect s c h = Some h1 \<and>
           Signal_count s h = Some (Suc n) \<and> Signal_count s h1 = Some n \<and>
           connections h1 c = Some \<lparr>m_pSignal = None, m_pSlot = None\<rparr> \<and>
           Connection_disconnect c h1 = Some h1 \<and>
           Signal_disconnect s c h1 = Some h1"
proof -
  from connection_okD(1) [OF heap_ok_conn [OF assms(1,2)] assms(3)]
  obtain sg where sg: "signals h s = Some sg" "c \<in> fst ` set (Signal_m_connections sg)"
    by blast
  from Signal_disconnect_present [OF assms(1) sg]
  obtain h1 where h1: "Signal_disconnect s c h = Some h1"
    "signals h1 = (signals h)(s \<mapsto>
        sg\<lparr>Signal_m_connections := map_erase c (Signal_m_connections sg)\<rparr>)"
    "connections h1 = (connections h)(c \<mapsto> \<lparr>m_pSignal = None, m_pSlot = None\<rparr>)"
    by blast
  from heap_ok_signal [OF assms(1) sg(1)]
  have "distinct (map fst (Signal_m_connections sg))" by (simp add: signal_ok_def)
  from length_map_erase [OF this sg(2)]
  have len: "Suc (length (map_erase c (Signal_m_connections sg))) = length (Signal_m_connections sg)" .
  have "Connection_disconnect c h = Some h1"
    using assms(2,3) h1(1) by (simp add: Connection_disconnect_def)
  moreover have "Signal_count s h = Some (Suc (length (map_erase c (Signal_m_connections sg))))"
    using sg(1) len by (simp add: Signal_count_def)
  moreover have "Signal_count s h1 = Some (length (map_erase c (Signal_m_connections sg)))"
    using h1(2) by (simp add: Signal_count_def)
  moreover have "Connection_disconnect c h1 = Some h1"
    using h1(3) by (simp add: Connection_disconnect_def)
  moreover have "Signal_disconnect s c h1 = Some h1"
    using h1(2) by (simp add: Signal_disconnect_def map_erase_keys)
  ultimately show ?thesis using h1(1,3)
    by (intro exI [where x = h1] exI [where x = "length (map_erase c (Signal_m_connections sg))"])
      simp
qed

theorem disconnect_idempotent_witness:
  "heap_ok two_listeners \<and>
   connections two_listeners 2 = Some \<lparr>m_pSignal = Some 0, m_pSlot = Some 0\<rparr> \<and>
   (\<exists>h1. Connection_disconnect 2 two_listeners = Some h1 \<and>
      Signal_count 0 two_listeners = Some 2 \<and> Signal_count 0 h1 = Some 1 \<and>
      Connection_disconnect 2 h1 = Some h1)"
proof -
  have cn: "connections two_listeners 2 = Some \<lparr>m_pSignal = Some 0, m_pSlot = Some 0\<rparr>"
    by (simp add: two_listeners_def)
  have two: "Signal_count 0 two_listeners = Some 2"
    by (simp add: two_listeners_def Signal_count_def)
  from disconnect_idempotent [OF heap_ok_two_listeners cn, of 0]
  obtain h1 n where h1: "Connection_disconnect 2 two_listeners = Some h1"
    "Signal_count 0 two_listeners = Some (Suc n)" "Signal_count 0 h1 = Some n"
    "Connection_disconnect 2 h1 = Some h1"
    by auto
  from h1(2) two have "n = 1" by simp
  with h1 two cn heap_ok_two_listeners show ?thesis by auto
qed

text \<open>
  What \<open>Connection::disconnect\<close> and its contract have in common: on a consistent state
  they end in the same state. With \<open>m_pSignal\<close> null both return the state as it is. With
  \<open>m_pSignal\<close> pointing at signal \<open>s\<close> the result is that of \<open>s\<close>'s \<open>disconnect\<close> called with
  the connection itself, and both back pointers are null afterwards, the connection
  still being in the store.
\<close>

lemma Connection_disconnect_end_state:
  assumes "heap_ok h" and "connections h c = Some cn"
  shows "Connection_disconnect c h = Connection_disconnect_contract c h \<and>
         (m_pSignal cn = None \<longrightarrow> Connection_disconnect c h = Some h) \<and>
         (\<forall>s. m_pSignal cn = Some s \<longrightarrow>
            (\<exists>h'. Connection_disconnect c h = Some h' \<and>
                   Signal_disconnect s c h = Some h' \<and>
                   connections h' c = Some \<lparr>m_pSignal = None, m_pSlot = None\<rparr>))"
proof (cases "m_pSignal cn")
  case None
  with assms(2) show ?thesis
    by (simp add: Connection_disconnect_def Connection_disconnect_contract_def)
next
  case (Some s)
  from connection_okD(1) [OF heap_ok_conn [OF assms] Some]
  obtain sg where sg: "signals h s = Some sg" "c \<in> fst ` set (Signal_m_connections sg)"
    by blast
  from Signal_disconnect_present [OF assms(1) sg]
  obtain h1 where h1: "Signal_disconnect s c h = Some h1"
    "connections h1 = (connections h)(c \<mapsto> \<lparr>m_pSignal = None, m_pSlot = None\<rparr>)"
    by blast
  have "Signal_disconnect s c (h\<lparr>connections := (connections h)(c \<mapsto> cn\<lparr>m_pSignal := None\<rparr>)\<rparr>)
      = Signal_disconnect s c h"
    using sg assms(2)
    by (cases cn) (simp add: Signal_disconnect_def Let_def split: option.splits)
  then have eq: "Connection_disconnect c h = Connection_disconnect_contract c h"
    using assms(2) Some by (simp add: Connection_disconnect_def Connection_disconnect_contract_def)
  have run: "Connection_disconnect c h = Some h1"
    using assms(2) Some h1(1) by (simp add: Connection_disconnect_def)
  have "connections h1 c = Some \<lparr>m_pSignal = None, m_pSlot = None\<rparr>"
    using h1(2) by simp
  with run h1(1) have "\<exists>h'. Connection_disconnect c h = Some h' \<and>
                   Signal_disconnect s c h = Some h' \<and>
                   connections h' c = Some \<lparr>m_pSignal = None, m_pSlot = None\<rparr>"
    by blast
  with eq Some show ?thesis by simp
qed


section \<open>Destroying a slot\<close>

text \<open>The loop of the destructor never changes a slot's set, whatever the state: the set
  it iterates over is the set on entry.\<close>

lemma Signal_disconnect_cleared_slots:
  assumes "Signal_disconnect s c (Slot_dtor_clear c cn h) = Some h1"
  shows "slots h1 = slots h"
  using assms
  by (auto simp: Signal_disconnect_def Slot_dtor_clear_def Let_def
      split: option.splits if_splits)

lemma Slot_dtor_loop_slots:
  "Slot_dtor_loop cs h = Some h' \<Longrightarrow> slots h' = slots h"
proof (induction cs arbitrary: h)
  case Nil
  then show ?case by simp
next
  case (Cons c rest)
  from Cons.prems obtain cn where cn: "connections h c = Some cn"
    by (auto split: option.splits)
  show ?case
  proof (cases "m_pSignal cn")
    case None
    with Cons cn show ?thesis by simp
  next
    case (Some s)
    with Cons.prems cn obtain h1 where
      h1: "Signal_disconnect s c (Slot_dtor_clear c cn h) = Some h1"
      and rest: "Slot_dtor_loop rest h1 = Some h'"
      by (auto split: option.splits)
    from Cons.IH [OF rest] Signal_disconnect_cleared_slots [OF h1] show ?thesis by simp
  qed
qed

lemma Slot_dtor_step:
  assumes cn: "connections h c = Some cn" and s: "m_pSignal cn = Some s"
    and sg: "signals h s = Some sg"
  shows "\<exists>h2. Signal_disconnect s c (Slot_dtor_clear c cn h) = Some h2 \<and>
     connections h2 = (connections h)(c \<mapsto> \<lparr>m_pSignal = None, m_pSlot = None\<rparr>) \<and>
     signals h2 = (signals h)(s \<mapsto>
        sg\<lparr>Signal_m_connections := map_erase c (Signal_m_connections sg)\<rparr>) \<and>
     slots h2 = slots h \<and> calls h2 = calls h"
proof (cases "c \<in> fst ` set (Signal_m_connections sg)")
  case True
  with sg show ?thesis
    by (cases cn) (simp add: Signal_disconnect_def Slot_dtor_clear_def)
next
  case False
  from map_erase_absent [OF False]
  have "(signals h)(s \<mapsto> sg\<lparr>Signal_m_connections := map_erase c (Signal_m_connections sg)\<rparr>)
      = signals h"
    using sg by (simp add: fun_upd_idem)
  with False sg show ?thesis
    by (cases cn) (simp add: Signal_disconnect_def Slot_dtor_clear_def)
qed

lemma Slot_dtor_loop_effect:
  assumes "distinct cs" and "dtor_ready cs h"
  shows "\<exists>h'. Slot_dtor_loop cs h = Some h' \<and>
     slots h' = slots h \<and> calls h' = calls h \<and>
     connections h' =
       (\<lambda>c. if c \<in> set cs then Some \<lparr>m_pSignal = None, m_pSlot = None\<rparr> else connections h c) \<and>
     signals h' =
       (\<lambda>s. map_option
          (\<lambda>sg. sg\<lparr>Signal_m_connections :=
                    filter (\<lambda>kv. fst kv \<notin> set cs) (Signal_m_connections sg)\<rparr>)
          (signals h s))"
  using assms
proof (induction cs arbitrary: h)
  case Nil
  show ?case by (auto simp: fun_eq_iff option.map_ident map_option_case split: option.splits)
next
  case (Cons c rest)
  from Cons.prems(2) obtain cn s sg where
    cn: "connections h c = Some cn" and s: "m_pSignal cn = Some s"
    and sg: "signals h s = Some sg"
    and only: "\<And>s' sg'. signals h s' = Some sg' \<Longrightarrow>
                 c \<in> fst ` set (Signal_m_connections sg') \<Longrightarrow> s' = s"
    by (auto simp: dtor_ready_def)
  from Slot_dtor_step [OF cn s sg] obtain h2 where
    h2: "Signal_disconnect s c (Slot_dtor_clear c cn h) = Some h2"
    and conns2: "connections h2 = (connections h)(c \<mapsto> \<lparr>m_pSignal = None, m_pSlot = None\<rparr>)"
    and sigs2: "signals h2 = (signals h)(s \<mapsto>
        sg\<lparr>Signal_m_connections := map_erase c (Signal_m_connections sg)\<rparr>)"
    and slots2: "slots h2 = slots h" and calls2: "calls h2 = calls h"
    by blast
  have ready2: "dtor_ready rest h2"
    unfolding dtor_ready_def
  proof
    fix c' assume c': "c' \<in> set rest"
    with Cons.prems(1) have ne: "c' \<noteq> c" by auto
    from Cons.prems(2) c' obtain cn' s1 sg1 where
      1: "connections h c' = Some cn'" "m_pSignal cn' = Some s1" "signals h s1 = Some sg1"
      and only1: "\<And>s' sg'. signals h s' = Some sg' \<Longrightarrow>
                 c' \<in> fst ` set (Signal_m_connections sg') \<Longrightarrow> s' = s1"
      by (auto simp: dtor_ready_def)
    have a: "connections h2 c' = Some cn'" using conns2 ne 1 by simp
    have b: "\<exists>sg2. signals h2 s1 = Some sg2" using sigs2 1 by simp
    have c: "\<forall>s' sg'. signals h2 s' = Some sg' \<longrightarrow>
                 c' \<in> fst ` set (Signal_m_connections sg') \<longrightarrow> s' = s1"
    proof (intro allI impI)
      fix s' sg'
      assume *: "signals h2 s' = Some sg'" "c' \<in> fst ` set (Signal_m_connections sg')"
      show "s' = s1"
      proof (cases "s' = s")
        case True
        with * sigs2 have "c' \<in> fst ` set (map_erase c (Signal_m_connections sg))" by auto
        then have "c' \<in> fst ` set (Signal_m_connections sg)" by (simp add: map_erase_keys)
        from only1 [OF sg this] True show ?thesis by simp
      next
        case False
        with * sigs2 have "signals h s' = Some sg'" by simp
        from only1 [OF this *(2)] show ?thesis .
      qed
    qed
    from a b c 1(2) show "\<exists>cn s sg. connections h2 c' = Some cn \<and> m_pSignal cn = Some s \<and>
        signals h2 s = Some sg \<and>
        (\<forall>s' sg'. signals h2 s' = Some sg' \<longrightarrow>
           c' \<in> fst ` set (Signal_m_connections sg') \<longrightarrow> s' = s)"
      by blast
  qed
  from Cons.prems(1) have "distinct rest" by simp
  from Cons.IH [OF this ready2] obtain h' where
    loop: "Slot_dtor_loop rest h2 = Some h'"
    and slots': "slots h' = slots h2" and calls': "calls h' = calls h2"
    and conns': "connections h' =
       (\<lambda>x. if x \<in> set rest then Some \<lparr>m_pSignal = None, m_pSlot = None\<rparr> else connections h2 x)"
    and sigs': "signals h' =
       (\<lambda>s. map_option
          (\<lambda>sg. sg\<lparr>Signal_m_connections :=
                    filter (\<lambda>kv. fst kv \<notin> set rest) (Signal_m_connections sg)\<rparr>)
          (signals h2 s))"
    by blast
  have run: "Slot_dtor_loop (c # rest) h = Some h'"
    using cn s h2 loop by simp
  have conns: "connections h' =
       (\<lambda>x. if x \<in> set (c # rest) then Some \<lparr>m_pSignal = None, m_pSlot = None\<rparr>
             else connections h x)"
    using conns' conns2 by (auto simp: fun_eq_iff)
  have sigs: "signals h' =
       (\<lambda>s. map_option
          (\<lambda>sg. sg\<lparr>Signal_m_connections :=
                    filter (\<lambda>kv. fst kv \<notin> set (c # rest)) (Signal_m_connections sg)\<rparr>)
          (signals h s))"
  proof (rule ext)
    fix s'
    show "signals h' s' = map_option
          (\<lambda>sg. sg\<lparr>Signal_m_connections :=
                    filter (\<lambda>kv. fst kv \<notin> set (c # rest)) (Signal_m_connections sg)\<rparr>)
          (signals h s')"
    proof (cases "s' = s")
      case True
      have "filter (\<lambda>kv. fst kv \<notin> set rest) (map_erase c (Signal_m_connections sg)) =
            filter (\<lambda>kv. fst kv \<notin> set (c # rest)) (Signal_m_connections sg)"
        by (auto simp: map_erase_def intro: filter_cong)
      with True sigs' sigs2 sg show ?thesis by simp
    next
      case False
      show ?thesis
      proof (cases "signals h s'")
        case None
        with False sigs' sigs2 show ?thesis by simp
      next
        case (Some sg')
        from only [OF Some] False have "c \<notin> fst ` set (Signal_m_connections sg')" by blast
        then have "filter (\<lambda>kv. fst kv \<notin> set rest) (Signal_m_connections sg') =
            filter (\<lambda>kv. fst kv \<notin> set (c # rest)) (Signal_m_connections sg')"
          by (auto intro: filter_cong)
        with False Some sigs' sigs2 show ?thesis by simp
      qed
    qed
  qed
  from run conns sigs slots' slots2 calls' calls2 show ?case by simp
qed

lemma heap_ok_dtor_ready:
  assumes ok: "heap_ok h" and so: "slots h slot = Some so"
  shows "dtor_ready (Slot_m_connections so) h"
  unfolding dtor_ready_def
proof
  fix c assume c: "c \<in> set (Slot_m_connections so)"
  with heap_ok_slot [OF ok so] have "member_ok h slot c" by (simp add: slot_ok_def)
  then obtain cn s where cn: "connections h c = Some cn" "m_pSignal cn = Some s"
    by (auto dest: member_okD)
  from connection_okD(1) [OF heap_ok_conn [OF ok cn(1)] cn(2)]
  obtain sg where sg: "signals h s = Some sg" by blast
  have "\<forall>s' sg'. signals h s' = Some sg' \<longrightarrow>
          c \<in> fst ` set (Signal_m_connections sg') \<longrightarrow> s' = s"
  proof (intro allI impI)
    fix s' sg'
    assume *: "signals h s' = Some sg'" "c \<in> fst ` set (Signal_m_connections sg')"
    then obtain f where "(c, f) \<in> set (Signal_m_connections sg')" by auto
    with heap_ok_signal [OF ok *(1)] have "entry_ok h s' (c, f)" by (auto simp: signal_ok_def)
    with cn show "s' = s" by (auto dest: entry_okD)
  qed
  with cn sg show "\<exists>cn s sg. connections h c = Some cn \<and> m_pSignal cn = Some s \<and>
      signals h s = Some sg \<and>
      (\<forall>s' sg'. signals h s' = Some sg' \<longrightarrow>
         c \<in> fst ` set (Signal_m_connections sg') \<longrightarrow> s' = s)"
    by blast
qed

lemma length_filter_keys:
  assumes "distinct (map fst m)" and "distinct cs"
  shows "length (filter (\<lambda>kv. fst kv \<notin> set cs) m) + length (filter (\<lambda>c. c \<in> fst ` set m) cs)
         = length m"
proof -
  have "length (filter (\<lambda>kv. fst kv \<notin> set cs) m) =
        length (filter (\<lambda>k. k \<notin> set cs) (map fst m))"
    by (simp add: filter_map comp_def)
  moreover have "length (filter (\<lambda>c. c \<in> fst ` set m) cs) =
        length (filter (\<lambda>k. k \<in> set cs) (map fst m))"
  proof -
    have "length (filter (\<lambda>c. c \<in> fst ` set m) cs) = card (fst ` set m \<inter> set cs)"
      using assms(2) by (simp add: distinct_length_filter)
    moreover have "length (filter (\<lambda>k. k \<in> set cs) (map fst m)) = card (set cs \<inter> fst ` set m)"
      by (simp only: distinct_length_filter [OF assms(1)] Collect_mem_eq set_map)
    ultimately show ?thesis by (simp add: Int_commute)
  qed
  moreover have "length (filter (\<lambda>k. k \<in> set cs) (map fst m)) +
        length (filter (\<lambda>k. k \<notin> set cs) (map fst m)) = length (map fst m)"
    by (rule sum_length_filter_compl)
  ultimately show ?thesis by simp
qed

lemma slot_connections_on_keys:
  assumes ok: "heap_ok h" and so: "slots h slot = Some so" and sg: "signals h s = Some sg"
  shows "slot_connections_on h so s =
         filter (\<lambda>c. c \<in> fst ` set (Signal_m_connections sg)) (Slot_m_connections so)"
  unfolding slot_connections_on_def
proof (rule filter_cong [OF refl])
  fix c assume c: "c \<in> set (Slot_m_connections so)"
  with heap_ok_slot [OF ok so] have "member_ok h slot c" by (simp add: slot_ok_def)
  then obtain cn s1 where cn: "connections h c = Some cn" "m_pSignal cn = Some s1"
    by (auto dest: member_okD)
  from connection_okD(1) [OF heap_ok_conn [OF ok cn(1)] cn(2)]
  obtain sg1 where sg1: "signals h s1 = Some sg1" "c \<in> fst ` set (Signal_m_connections sg1)"
    by blast
  have "c \<in> fst ` set (Signal_m_connections sg) \<longleftrightarrow> s1 = s"
  proof
    assume "c \<in> fst ` set (Signal_m_connections sg)"
    then obtain f where "(c, f) \<in> set (Signal_m_connections sg)" by auto
    with heap_ok_signal [OF ok sg] have "entry_ok h s (c, f)" by (auto simp: signal_ok_def)
    with cn show "s1 = s" by (auto dest: entry_okD)
  next
    assume "s1 = s"
    with sg1 sg show "c \<in> fst ` set (Signal_m_connections sg)" by simp
  qed
  with cn show "(case connections h c of None \<Rightarrow> False | Some cn \<Rightarrow> m_pSignal cn = Some s) =
      (c \<in> fst ` set (Signal_m_connections sg))"
    by auto
qed


lemma Slot_dtor_body_effect:
  assumes ok: "heap_ok h" and so: "slots h slot = Some so"
  shows "\<exists>hl. Slot_dtor_body slot h = Some hl \<and>
     slots hl = slots h \<and> calls hl = calls h \<and>
     connections hl =
       (\<lambda>c. if c \<in> set (Slot_m_connections so)
            then Some \<lparr>m_pSignal = None, m_pSlot = None\<rparr> else connections h c) \<and>
     signals hl =
       (\<lambda>s. map_option
          (\<lambda>sg. sg\<lparr>Signal_m_connections :=
                    filter (\<lambda>kv. fst kv \<notin> set (Slot_m_connections so)) (Signal_m_connections sg)\<rparr>)
          (signals h s))"
proof -
  from heap_ok_slot [OF ok so] have "distinct (Slot_m_connections so)"
    by (simp add: slot_ok_def)
  from Slot_dtor_loop_effect [OF this heap_ok_dtor_ready [OF ok so]] so
  show ?thesis by (simp add: Slot_dtor_body_def)
qed

lemma Slot_dtor_no_bound_method:
  assumes ok: "heap_ok h" and so: "slots h slot = Some so" and sg: "signals h s = Some sg"
  shows "BoundMethod slot f \<notin>
     snd ` set (filter (\<lambda>kv. fst kv \<notin> set (Slot_m_connections so)) (Signal_m_connections sg))"
proof
  assume "BoundMethod slot f \<in>
     snd ` set (filter (\<lambda>kv. fst kv \<notin> set (Slot_m_connections so)) (Signal_m_connections sg))"
  then obtain c where c: "(c, BoundMethod slot f) \<in> set (Signal_m_connections sg)"
    "c \<notin> set (Slot_m_connections so)"
    by auto
  with heap_ok_signal [OF ok sg] have "entry_ok h s (c, BoundMethod slot f)"
    by (auto simp: signal_ok_def)
  then obtain cn where cn: "connections h c = Some cn" "m_pSignal cn = Some s"
    "m_pSlot cn = Some slot"
    by (auto dest: entry_okD)
  from connection_okD(2) [OF heap_ok_conn [OF ok cn(1)] cn(2) cn(3)] so
  have "c \<in> set (Slot_m_connections so)" by simp
  with c(2) show False by simp
qed

lemma heap_ok_Slot_dtor:
  assumes ok: "heap_ok h" and so: "slots h slot = Some so"
    and dtor: "Slot_dtor slot h = Some h'"
  shows "heap_ok h'"
proof -
  let ?cs = "Slot_m_connections so"
  from Slot_dtor_body_effect [OF ok so] dtor
  have slots': "slots h' = (slots h)(slot := None)"
    and conns': "connections h' =
       (\<lambda>c. if c \<in> set ?cs then Some \<lparr>m_pSignal = None, m_pSlot = None\<rparr> else connections h c)"
    and sigs': "signals h' =
       (\<lambda>s. map_option
          (\<lambda>sg. sg\<lparr>Signal_m_connections :=
                    filter (\<lambda>kv. fst kv \<notin> set ?cs) (Signal_m_connections sg)\<rparr>)
          (signals h s))"
    by (auto simp: Slot_dtor_def)
  show ?thesis
  proof (rule heap_okI)
    fix s sg' assume "signals h' s = Some sg'"
    with sigs' obtain sg where sg: "signals h s = Some sg"
      "Signal_m_connections sg' = filter (\<lambda>kv. fst kv \<notin> set ?cs) (Signal_m_connections sg)"
      by auto
    from heap_ok_signal [OF ok sg(1)]
    have 1: "distinct (map fst (Signal_m_connections sg))"
      and 2: "\<forall>kv \<in> set (Signal_m_connections sg). entry_ok h s kv"
      by (simp_all add: signal_ok_def)
    have "\<forall>kv \<in> set (Signal_m_connections sg'). entry_ok h' s kv"
    proof
      fix kv assume "kv \<in> set (Signal_m_connections sg')"
      with sg(2) have "kv \<in> set (Signal_m_connections sg)" "fst kv \<notin> set ?cs" by auto
      with 2 conns' show "entry_ok h' s kv" by (simp add: entry_ok_def)
    qed
    with 1 sg(2) show "signal_ok h' s sg'"
      by (simp add: signal_ok_def distinct_map_filter)
  next
    fix c cn assume cn': "connections h' c = Some cn"
    show "connection_ok h' c cn"
    proof (cases "c \<in> set ?cs")
      case True
      with cn' conns' show ?thesis by (auto simp: connection_ok_def)
    next
      case False
      with cn' conns' have cn: "connections h c = Some cn" by simp
      note cok = heap_ok_conn [OF ok cn]
      show ?thesis
      proof (cases "m_pSignal cn")
        case None
        then show ?thesis by (simp add: connection_ok_def)
      next
        case (Some s)
        from connection_okD(1) [OF cok Some] obtain sg where
          sg: "signals h s = Some sg" "c \<in> fst ` set (Signal_m_connections sg)" by blast
        with False sigs' have in_table: "case signals h' s of None \<Rightarrow> False
            | Some sg \<Rightarrow> c \<in> fst ` set (Signal_m_connections sg)"
          by force
        have in_set: "case m_pSlot cn of None \<Rightarrow> True
            | Some sl \<Rightarrow> (case slots h' sl of None \<Rightarrow> False
                | Some so \<Rightarrow> c \<in> set (Slot_m_connections so))"
        proof (cases "m_pSlot cn")
          case None
          then show ?thesis by simp
        next
          case (Some sl)
          from connection_okD(2) [OF cok \<open>m_pSignal cn = Some s\<close> Some] obtain so' where
            so': "slots h sl = Some so'" "c \<in> set (Slot_m_connections so')" by blast
          with False so have "sl \<noteq> slot" by auto
          with so' Some slots' show ?thesis by simp
        qed
        from in_table in_set Some show ?thesis by (simp add: connection_ok_def)
      qed
    qed
  next
    fix sl so' assume "slots h' sl = Some so'"
    with slots' have ne: "sl \<noteq> slot" and so': "slots h sl = Some so'"
      by (auto split: if_splits)
    from heap_ok_slot [OF ok so']
    have 1: "distinct (Slot_m_connections so')"
      and 2: "\<forall>c \<in> set (Slot_m_connections so'). member_ok h sl c"
      by (simp_all add: slot_ok_def)
    have "\<forall>c \<in> set (Slot_m_connections so'). member_ok h' sl c"
    proof
      fix c assume c: "c \<in> set (Slot_m_connections so')"
      with 2 have m: "member_ok h sl c" by blast
      have "c \<notin> set ?cs"
      proof
        assume "c \<in> set ?cs"
        with heap_ok_slot [OF ok so] have "member_ok h slot c" by (simp add: slot_ok_def)
        with m ne show False by (auto dest!: member_okD)
      qed
      with m conns' show "member_ok h' sl c" by (simp add: member_ok_def)
    qed
    with 1 show "slot_ok h' sl so'" by (simp add: slot_ok_def)
  qed
qed


section \<open>Disconnecting all\<close>

text \<open>The loop of \<open>disconnectAll\<close> never changes a table: the keys it iterates over are
  the keys on entry.\<close>

lemma disconnectAll_loop_signals:
  "disconnectAll_loop cs h = Some h' \<Longrightarrow> signals h' = signals h"
proof (induction cs arbitrary: h)
  case Nil
  then show ?case by simp
next
  case (Cons c rest)
  from Cons.prems obtain cn where cn: "connections h c = Some cn"
    by (auto split: option.splits)
  show ?case
  proof (cases "m_pSlot cn")
    case None
    with Cons.prems cn have "disconnectAll_loop rest
        (h\<lparr>connections := (connections h)(c \<mapsto> cn\<lparr>m_pSignal := None\<rparr>)\<rparr>) = Some h'"
      by simp
    from Cons.IH [OF this] show ?thesis by simp
  next
    case (Some pSlot)
    with Cons.prems cn obtain so where
      "disconnectAll_loop rest
        (h\<lparr>connections := (connections h)(c \<mapsto> cn\<lparr>m_pSignal := None\<rparr>),
           slots := (slots h)(pSlot \<mapsto>
              so\<lparr>Slot_m_connections := set_erase c (Slot_m_connections so)\<rparr>)\<rparr>) = Some h'"
      by (auto simp: Let_def split: option.splits)
    from Cons.IH [OF this] show ?thesis by simp
  qed
qed

lemma disconnectAll_loop_effect:
  assumes "disconnectAll_ready cs h"
  shows "\<exists>h'. disconnectAll_loop cs h = Some h' \<and>
     signals h' = signals h \<and> calls h' = calls h \<and>
     connections h' =
       (\<lambda>c. if c \<in> set cs then map_option (\<lambda>cn. cn\<lparr>m_pSignal := None\<rparr>) (connections h c)
            else connections h c) \<and>
     slots h' =
       (\<lambda>sl. map_option
          (\<lambda>so. so\<lparr>Slot_m_connections :=
                    filter (\<lambda>c. \<not> (c \<in> set cs \<and> slot_of h c = Some sl)) (Slot_m_connections so)\<rparr>)
          (slots h sl))"
  using assms
proof (induction cs arbitrary: h)
  case Nil
  show ?case by (simp add: fun_eq_iff option.map_ident)
next
  case (Cons c rest)
  from Cons.prems obtain cn where cn: "connections h c = Some cn"
    and tgt: "case m_pSlot cn of None \<Rightarrow> True | Some sl \<Rightarrow> sl \<in> dom (slots h)"
    by (auto simp: disconnectAll_ready_def slot_of_def)
  define h1 where "h1 = h\<lparr>connections := (connections h)(c \<mapsto> cn\<lparr>m_pSignal := None\<rparr>)\<rparr>"
  define h2 where "h2 = (case m_pSlot cn of None \<Rightarrow> h1
      | Some pSlot \<Rightarrow> h1\<lparr>slots := (slots h1)(pSlot \<mapsto>
            (the (slots h1 pSlot))\<lparr>Slot_m_connections :=
               set_erase c (Slot_m_connections (the (slots h1 pSlot)))\<rparr>)\<rparr>)"
  have step: "disconnectAll_loop (c # rest) h = disconnectAll_loop rest h2"
    using cn tgt by (auto simp: h1_def h2_def Let_def split: option.splits)
  have conns2: "connections h2 = (connections h)(c \<mapsto> cn\<lparr>m_pSignal := None\<rparr>)"
    by (simp add: h2_def h1_def split: option.splits)
  have sigs2: "signals h2 = signals h" and calls2: "calls h2 = calls h"
    by (simp_all add: h2_def h1_def split: option.splits)
  have slot_of2: "\<And>x. slot_of h2 x = slot_of h x"
    using cn by (simp add: slot_of_def conns2)
  have slots2: "slots h2 = (\<lambda>sl. map_option
          (\<lambda>so. so\<lparr>Slot_m_connections :=
                    filter (\<lambda>x. \<not> (x = c \<and> slot_of h c = Some sl)) (Slot_m_connections so)\<rparr>)
          (slots h sl))"
  proof (rule ext)
    fix sl
    show "slots h2 sl = map_option
          (\<lambda>so. so\<lparr>Slot_m_connections :=
                    filter (\<lambda>x. \<not> (x = c \<and> slot_of h c = Some sl)) (Slot_m_connections so)\<rparr>)
          (slots h sl)"
      using cn tgt
      by (cases "slots h sl")
        (auto simp: h2_def h1_def slot_of_def set_erase_def split: option.splits
          intro!: filter_cong)
  qed
  have dom2: "dom (slots h2) = dom (slots h)"
    by (auto simp: slots2)
  have "disconnectAll_ready rest h2"
    using Cons.prems unfolding disconnectAll_ready_def slot_of2 dom2
    by (auto simp: conns2)
  from Cons.IH [OF this] obtain h' where
    loop: "disconnectAll_loop rest h2 = Some h'"
    and sigs': "signals h' = signals h2" and calls': "calls h' = calls h2"
    and conns': "connections h' =
       (\<lambda>x. if x \<in> set rest then map_option (\<lambda>cn. cn\<lparr>m_pSignal := None\<rparr>) (connections h2 x)
            else connections h2 x)"
    and slots': "slots h' =
       (\<lambda>sl. map_option
          (\<lambda>so. so\<lparr>Slot_m_connections :=
                    filter (\<lambda>x. \<not> (x \<in> set rest \<and> slot_of h2 x = Some sl)) (Slot_m_connections so)\<rparr>)
          (slots h2 sl))"
    by blast
  have conns: "connections h' =
       (\<lambda>x. if x \<in> set (c # rest) then map_option (\<lambda>cn. cn\<lparr>m_pSignal := None\<rparr>) (connections h x)
            else connections h x)"
    using conns' conns2 cn by (auto simp: fun_eq_iff)
  have slts: "slots h' =
       (\<lambda>sl. map_option
          (\<lambda>so. so\<lparr>Slot_m_connections :=
                    filter (\<lambda>x. \<not> (x \<in> set (c # rest) \<and> slot_of h x = Some sl))
                      (Slot_m_connections so)\<rparr>)
          (slots h sl))"
  proof (rule ext)
    fix sl
    show "slots h' sl = map_option
          (\<lambda>so. so\<lparr>Slot_m_connections :=
                    filter (\<lambda>x. \<not> (x \<in> set (c # rest) \<and> slot_of h x = Some sl))
                      (Slot_m_connections so)\<rparr>)
          (slots h sl)"
    proof (cases "slots h sl")
      case None
      then show ?thesis by (simp add: slots' slots2)
    next
      case (Some so)
      have "filter (\<lambda>x. \<not> (x \<in> set rest \<and> slot_of h x = Some sl))
              (filter (\<lambda>x. \<not> (x = c \<and> slot_of h c = Some sl)) (Slot_m_connections so)) =
            filter (\<lambda>x. \<not> (x \<in> set (c # rest) \<and> slot_of h x = Some sl))
              (Slot_m_connections so)"
        unfolding filter_filter by (rule filter_cong [OF refl]) auto
      with Some show ?thesis by (simp add: slots' slots2 slot_of2)
    qed
  qed
  from step loop conns slts sigs' sigs2 calls' calls2 show ?case by simp
qed

section \<open>Every operation keeps the state consistent\<close>

lemma entry_ok_cong:
  "connections h' (fst kv) = connections h (fst kv) \<Longrightarrow> entry_ok h' s kv = entry_ok h s kv"
  by (simp add: entry_ok_def)

lemma member_ok_cong:
  "connections h' c = connections h c \<Longrightarrow> member_ok h' slot c = member_ok h slot c"
  by (simp add: member_ok_def)

lemma heap_ok_key_dom:
  assumes "heap_ok h" and "signals h s = Some sg" and "kv \<in> set (Signal_m_connections sg)"
  shows "fst kv \<in> dom (connections h)"
proof -
  from heap_ok_signal [OF assms(1,2)] assms(3) have "entry_ok h s kv"
    by (simp add: signal_ok_def)
  then show ?thesis by (auto simp: entry_ok_def split: option.splits)
qed

lemma heap_ok_member_dom:
  assumes "heap_ok h" and "slots h slot = Some so" and "c \<in> set (Slot_m_connections so)"
  shows "c \<in> dom (connections h)"
proof -
  from heap_ok_slot [OF assms(1,2)] assms(3) have "member_ok h slot c"
    by (simp add: slot_ok_def)
  then show ?thesis by (auto simp: member_ok_def split: option.splits)
qed

lemma heap_ok_Signal_connect:
  assumes ok: "heap_ok h" and fresh: "p \<notin> dom (connections h)"
    and run: "Signal_connect s p f h = Some h'"
  shows "heap_ok h'"
proof -
  from run obtain sg where sg: "signals h s = Some sg"
    and h': "h' = h\<lparr>connections := (connections h)(p \<mapsto> \<lparr>m_pSignal = Some s, m_pSlot = None\<rparr>),
                  signals := (signals h)(s \<mapsto>
                    sg\<lparr>Signal_m_connections :=
                         map_insert p (Function f) (Signal_m_connections sg)\<rparr>)\<rparr>"
    by (auto simp: Signal_connect_def split: option.splits)
  from heap_ok_key_dom [OF ok sg] fresh have new: "p \<notin> fst ` set (Signal_m_connections sg)"
    by auto
  show ?thesis
  proof (rule heap_okI)
    fix s1 sg1 assume s1: "signals h' s1 = Some sg1"
    show "signal_ok h' s1 sg1"
    proof (cases "s1 = s")
      case True
      with s1 h' have tbl: "Signal_m_connections sg1 =
          map_insert p (Function f) (Signal_m_connections sg)" by auto
      from heap_ok_signal [OF ok sg]
      have 1: "distinct (map fst (Signal_m_connections sg))"
        and 2: "\<forall>kv \<in> set (Signal_m_connections sg). entry_ok h s kv"
        by (simp_all add: signal_ok_def)
      have "\<forall>kv \<in> set (Signal_m_connections sg1). entry_ok h' s kv"
      proof
        fix kv assume "kv \<in> set (Signal_m_connections sg1)"
        with tbl set_map_insert [OF new] have "kv = (p, Function f) \<or> kv \<in> set (Signal_m_connections sg)"
          by auto
        then show "entry_ok h' s kv"
        proof
          assume "kv = (p, Function f)"
          then show ?thesis by (simp add: entry_ok_def h')
        next
          assume kv: "kv \<in> set (Signal_m_connections sg)"
          with new have "fst kv \<noteq> p" by auto
          then have "connections h' (fst kv) = connections h (fst kv)" by (simp add: h')
          from entry_ok_cong [OF this] 2 kv show ?thesis by simp
        qed
      qed
      with distinct_map_insert [OF new 1] tbl True show ?thesis by (simp add: signal_ok_def)
    next
      case False
      with s1 h' have s1h: "signals h s1 = Some sg1" by simp
      from heap_ok_signal [OF ok s1h]
      have 1: "distinct (map fst (Signal_m_connections sg1))"
        and 2: "\<forall>kv \<in> set (Signal_m_connections sg1). entry_ok h s1 kv"
        by (simp_all add: signal_ok_def)
      have "\<forall>kv \<in> set (Signal_m_connections sg1). entry_ok h' s1 kv"
      proof
        fix kv assume kv: "kv \<in> set (Signal_m_connections sg1)"
        from heap_ok_key_dom [OF ok s1h kv] fresh have "fst kv \<noteq> p" by auto
        then have "connections h' (fst kv) = connections h (fst kv)" by (simp add: h')
        from entry_ok_cong [OF this] 2 kv show "entry_ok h' s1 kv" by simp
      qed
      with 1 show ?thesis by (simp add: signal_ok_def)
    qed
  next
    fix c cn assume c: "connections h' c = Some cn"
    show "connection_ok h' c cn"
    proof (cases "c = p")
      case True
      with c h' have "cn = \<lparr>m_pSignal = Some s, m_pSlot = None\<rparr>" by simp
      with True new show ?thesis
        by (simp add: connection_ok_def h' set_map_insert)
    next
      case False
      with c h' have ch: "connections h c = Some cn" by simp
      from heap_ok_conn [OF ok ch] new sg show ?thesis
        by (auto simp: connection_ok_def h' set_map_insert split: option.splits)
    qed
  next
    fix slot so assume so: "slots h' slot = Some so"
    with h' have soh: "slots h slot = Some so" by simp
    from heap_ok_slot [OF ok soh]
    have 1: "distinct (Slot_m_connections so)"
      and 2: "\<forall>c \<in> set (Slot_m_connections so). member_ok h slot c"
      by (simp_all add: slot_ok_def)
    have "\<forall>c \<in> set (Slot_m_connections so). member_ok h' slot c"
    proof
      fix c assume c: "c \<in> set (Slot_m_connections so)"
      from heap_ok_member_dom [OF ok soh c] fresh have "c \<noteq> p" by auto
      then have "connections h' c = connections h c" by (simp add: h')
      from member_ok_cong [OF this] 2 c show "member_ok h' slot c" by simp
    qed
    with 1 show "slot_ok h' slot so" by (simp add: slot_ok_def)
  qed
qed

lemma heap_ok_Signal_connect_slot:
  assumes ok: "heap_ok h" and fresh: "p \<notin> dom (connections h)"
    and run: "Signal_connect_slot s p slot f h = Some h'"
  shows "heap_ok h'"
proof -
  from run obtain sg so where sg: "signals h s = Some sg" and so: "slots h slot = Some so"
    and h': "h' = h\<lparr>connections := (connections h)(p \<mapsto> \<lparr>m_pSignal = Some s, m_pSlot = Some slot\<rparr>),
                  signals := (signals h)(s \<mapsto>
                    sg\<lparr>Signal_m_connections :=
                         map_insert p (BoundMethod slot f) (Signal_m_connections sg)\<rparr>),
                  slots := (slots h)(slot \<mapsto>
                    so\<lparr>Slot_m_connections := set_insert p (Slot_m_connections so)\<rparr>)\<rparr>"
    by (auto simp: Signal_connect_slot_def split: option.splits)
  from heap_ok_key_dom [OF ok sg] fresh have new: "p \<notin> fst ` set (Signal_m_connections sg)"
    by auto
  show ?thesis
  proof (rule heap_okI)
    fix s1 sg1 assume s1: "signals h' s1 = Some sg1"
    show "signal_ok h' s1 sg1"
    proof (cases "s1 = s")
      case True
      with s1 h' have tbl: "Signal_m_connections sg1 =
          map_insert p (BoundMethod slot f) (Signal_m_connections sg)" by auto
      from heap_ok_signal [OF ok sg]
      have 1: "distinct (map fst (Signal_m_connections sg))"
        and 2: "\<forall>kv \<in> set (Signal_m_connections sg). entry_ok h s kv"
        by (simp_all add: signal_ok_def)
      have "\<forall>kv \<in> set (Signal_m_connections sg1). entry_ok h' s kv"
      proof
        fix kv assume "kv \<in> set (Signal_m_connections sg1)"
        with tbl set_map_insert [OF new]
        have "kv = (p, BoundMethod slot f) \<or> kv \<in> set (Signal_m_connections sg)"
          by auto
        then show "entry_ok h' s kv"
        proof
          assume "kv = (p, BoundMethod slot f)"
          then show ?thesis by (simp add: entry_ok_def h')
        next
          assume kv: "kv \<in> set (Signal_m_connections sg)"
          with new have "fst kv \<noteq> p" by auto
          then have "connections h' (fst kv) = connections h (fst kv)" by (simp add: h')
          from entry_ok_cong [OF this] 2 kv show ?thesis by simp
        qed
      qed
      with distinct_map_insert [OF new 1] tbl True show ?thesis by (simp add: signal_ok_def)
    next
      case False
      with s1 h' have s1h: "signals h s1 = Some sg1" by simp
      from heap_ok_signal [OF ok s1h]
      have 1: "distinct (map fst (Signal_m_connections sg1))"
        and 2: "\<forall>kv \<in> set (Signal_m_connections sg1). entry_ok h s1 kv"
        by (simp_all add: signal_ok_def)
      have "\<forall>kv \<in> set (Signal_m_connections sg1). entry_ok h' s1 kv"
      proof
        fix kv assume kv: "kv \<in> set (Signal_m_connections sg1)"
        from heap_ok_key_dom [OF ok s1h kv] fresh have "fst kv \<noteq> p" by auto
        then have "connections h' (fst kv) = connections h (fst kv)" by (simp add: h')
        from entry_ok_cong [OF this] 2 kv show "entry_ok h' s1 kv" by simp
      qed
      with 1 show ?thesis by (simp add: signal_ok_def)
    qed
  next
    fix c cn assume c: "connections h' c = Some cn"
    show "connection_ok h' c cn"
    proof (cases "c = p")
      case True
      with c h' have "cn = \<lparr>m_pSignal = Some s, m_pSlot = Some slot\<rparr>" by simp
      with True new show ?thesis
        by (simp add: connection_ok_def h' set_map_insert set_set_insert)
    next
      case False
      with c h' have ch: "connections h c = Some cn" by simp
      from heap_ok_conn [OF ok ch] new sg so show ?thesis
        by (auto simp: connection_ok_def h' set_map_insert set_set_insert split: option.splits)
    qed
  next
    fix sl so1 assume so1: "slots h' sl = Some so1"
    show "slot_ok h' sl so1"
    proof (cases "sl = slot")
      case True
      with so1 h' have cs: "Slot_m_connections so1 = set_insert p (Slot_m_connections so)"
        by auto
      from heap_ok_slot [OF ok so]
      have 1: "distinct (Slot_m_connections so)"
        and 2: "\<forall>c \<in> set (Slot_m_connections so). member_ok h slot c"
        by (simp_all add: slot_ok_def)
      have "\<forall>c \<in> set (Slot_m_connections so1). member_ok h' slot c"
      proof
        fix c assume "c \<in> set (Slot_m_connections so1)"
        with cs have "c = p \<or> c \<in> set (Slot_m_connections so)" by (auto simp: set_set_insert)
        then show "member_ok h' slot c"
        proof
          assume "c = p"
          then show ?thesis by (simp add: member_ok_def h')
        next
          assume c: "c \<in> set (Slot_m_connections so)"
          from heap_ok_member_dom [OF ok so c] fresh have "c \<noteq> p" by auto
          then have "connections h' c = connections h c" by (simp add: h')
          from member_ok_cong [OF this] 2 c show ?thesis by simp
        qed
      qed
      with distinct_set_insert [OF 1] cs True show ?thesis by (simp add: slot_ok_def)
    next
      case False
      with so1 h' have soh: "slots h sl = Some so1" by simp
      from heap_ok_slot [OF ok soh]
      have 1: "distinct (Slot_m_connections so1)"
        and 2: "\<forall>c \<in> set (Slot_m_connections so1). member_ok h sl c"
        by (simp_all add: slot_ok_def)
      have "\<forall>c \<in> set (Slot_m_connections so1). member_ok h' sl c"
      proof
        fix c assume c: "c \<in> set (Slot_m_connections so1)"
        from heap_ok_member_dom [OF ok soh c] fresh have "c \<noteq> p" by auto
        then have "connections h' c = connections h c" by (simp add: h')
        from member_ok_cong [OF this] 2 c show "member_ok h' sl c" by simp
      qed
      with 1 show ?thesis by (simp add: slot_ok_def)
    qed
  qed
qed

lemma heap_ok_member_slot:
  assumes "heap_ok h" and "slots h slot = Some so" and "c \<in> set (Slot_m_connections so)"
    and "connections h c = Some cn"
  shows "m_pSlot cn = Some slot"
proof -
  from heap_ok_slot [OF assms(1,2)] assms(3) have "member_ok h slot c"
    by (simp add: slot_ok_def)
  with assms(4) show ?thesis by (auto dest: member_okD)
qed

lemma heap_ok_key_signal:
  assumes "heap_ok h" and "signals h s = Some sg" and "c \<in> fst ` set (Signal_m_connections sg)"
    and "connections h c = Some cn"
  shows "m_pSignal cn = Some s"
proof -
  from assms(3) obtain f where "(c, f) \<in> set (Signal_m_connections sg)" by auto
  with heap_ok_signal [OF assms(1,2)] have "entry_ok h s (c, f)" by (auto simp: signal_ok_def)
  with assms(4) show ?thesis by (auto dest: entry_okD)
qed

lemma Signal_disconnect_effect:
  assumes ok: "heap_ok h" and sg: "signals h s = Some sg"
    and c: "c \<in> fst ` set (Signal_m_connections sg)"
  shows "\<exists>h1. Signal_disconnect s c h = Some h1 \<and>
           signals h1 = (signals h)(s \<mapsto>
              sg\<lparr>Signal_m_connections := map_erase c (Signal_m_connections sg)\<rparr>) \<and>
           connections h1 = (connections h)(c \<mapsto> \<lparr>m_pSignal = None, m_pSlot = None\<rparr>) \<and>
           slots h1 = (\<lambda>sl. map_option
              (\<lambda>so. so\<lparr>Slot_m_connections := set_erase c (Slot_m_connections so)\<rparr>) (slots h sl)) \<and>
           calls h1 = calls h"
proof -
  from heap_ok_key_dom [OF ok sg] c obtain cn where cn: "connections h c = Some cn" by force
  have elsewhere: "\<And>sl so. slots h sl = Some so \<Longrightarrow> m_pSlot cn \<noteq> Some sl \<Longrightarrow>
      so\<lparr>Slot_m_connections := set_erase c (Slot_m_connections so)\<rparr> = so"
  proof -
    fix sl so assume so: "slots h sl = Some so" and ne: "m_pSlot cn \<noteq> Some sl"
    from heap_ok_member_slot [OF ok so _ cn] ne have "c \<notin> set (Slot_m_connections so)" by blast
    from set_erase_absent [OF this] show
      "so\<lparr>Slot_m_connections := set_erase c (Slot_m_connections so)\<rparr> = so" by simp
  qed
  show ?thesis
  proof (cases "m_pSlot cn")
    case None
    have "slots h = (\<lambda>sl. map_option
              (\<lambda>so. so\<lparr>Slot_m_connections := set_erase c (Slot_m_connections so)\<rparr>) (slots h sl))"
    proof (rule ext)
      fix sl show "slots h sl = map_option
              (\<lambda>so. so\<lparr>Slot_m_connections := set_erase c (Slot_m_connections so)\<rparr>) (slots h sl)"
        using elsewhere [of sl] None by (cases "slots h sl") simp_all
    qed
    with None sg c cn show ?thesis
      by (cases cn) (simp add: Signal_disconnect_def)
  next
    case (Some slot)
    from heap_ok_key_signal [OF ok sg c cn] have "m_pSignal cn = Some s" .
    from connection_okD(2) [OF heap_ok_conn [OF ok cn] this Some]
    obtain so where so: "slots h slot = Some so" by blast
    have "(slots h)(slot \<mapsto> so\<lparr>Slot_m_connections := set_erase c (Slot_m_connections so)\<rparr>)
        = (\<lambda>sl. map_option
              (\<lambda>so. so\<lparr>Slot_m_connections := set_erase c (Slot_m_connections so)\<rparr>) (slots h sl))"
    proof (rule ext)
      fix sl
      show "((slots h)(slot \<mapsto> so\<lparr>Slot_m_connections := set_erase c (Slot_m_connections so)\<rparr>)) sl
        = map_option
              (\<lambda>so. so\<lparr>Slot_m_connections := set_erase c (Slot_m_connections so)\<rparr>) (slots h sl)"
        using elsewhere [of sl] Some so by (cases "slots h sl") auto
    qed
    with Some sg c cn so show ?thesis
      by (cases cn) (simp add: Signal_disconnect_def)
  qed
qed

lemma heap_ok_retire:
  assumes ok: "heap_ok h"
    and kept: "\<And>c. c \<notin> R \<Longrightarrow> connections h' c = connections h c"
    and retired: "\<And>c cn. c \<in> R \<Longrightarrow> connections h' c = Some cn \<Longrightarrow> m_pSignal cn = None"
    and sigs: "\<And>s sg'. signals h' s = Some sg' \<Longrightarrow>
        \<exists>sg. signals h s = Some sg \<and>
          Signal_m_connections sg' = filter (\<lambda>kv. fst kv \<notin> R) (Signal_m_connections sg)"
    and sigs_dom: "\<And>s sg c. signals h s = Some sg \<Longrightarrow>
        c \<in> fst ` set (Signal_m_connections sg) \<Longrightarrow> c \<notin> R \<Longrightarrow> s \<in> dom (signals h')"
    and slts: "\<And>sl so'. slots h' sl = Some so' \<Longrightarrow>
        \<exists>so. slots h sl = Some so \<and>
          Slot_m_connections so' = filter (\<lambda>c. c \<notin> R) (Slot_m_connections so)"
    and slts_dom: "\<And>sl so c. slots h sl = Some so \<Longrightarrow>
        c \<in> set (Slot_m_connections so) \<Longrightarrow> c \<notin> R \<Longrightarrow> sl \<in> dom (slots h')"
  shows "heap_ok h'"
proof (rule heap_okI)
  fix s sg' assume s: "signals h' s = Some sg'"
  from sigs [OF s] obtain sg where sg: "signals h s = Some sg"
    "Signal_m_connections sg' = filter (\<lambda>kv. fst kv \<notin> R) (Signal_m_connections sg)"
    by blast
  from heap_ok_signal [OF ok sg(1)]
  have 1: "distinct (map fst (Signal_m_connections sg))"
    and 2: "\<forall>kv \<in> set (Signal_m_connections sg). entry_ok h s kv"
    by (simp_all add: signal_ok_def)
  have "\<forall>kv \<in> set (Signal_m_connections sg'). entry_ok h' s kv"
  proof
    fix kv assume "kv \<in> set (Signal_m_connections sg')"
    with sg(2) have kv: "kv \<in> set (Signal_m_connections sg)" "fst kv \<notin> R" by auto
    from entry_ok_cong [OF kept [OF kv(2)]] 2 kv(1) show "entry_ok h' s kv" by simp
  qed
  with 1 sg(2) show "signal_ok h' s sg'" by (simp add: signal_ok_def distinct_map_filter)
next
  fix c cn assume c: "connections h' c = Some cn"
  show "connection_ok h' c cn"
  proof (cases "c \<in> R")
    case True
    from retired [OF True c] show ?thesis by (simp add: connection_ok_def)
  next
    case False
    with kept c have ch: "connections h c = Some cn" by simp
    note cok = heap_ok_conn [OF ok ch]
    show ?thesis
    proof (cases "m_pSignal cn")
      case None
      then show ?thesis by (simp add: connection_ok_def)
    next
      case (Some s)
      from connection_okD(1) [OF cok Some] obtain sg where
        sg: "signals h s = Some sg" "c \<in> fst ` set (Signal_m_connections sg)" by blast
      from sigs_dom [OF sg False] obtain sg' where sg': "signals h' s = Some sg'" by blast
      from sigs [OF sg'] sg(1) have "Signal_m_connections sg' =
          filter (\<lambda>kv. fst kv \<notin> R) (Signal_m_connections sg)" by simp
      with sg(2) False have "c \<in> fst ` set (Signal_m_connections sg')" by force
      with sg' have in_table: "case signals h' s of None \<Rightarrow> False
            | Some sg \<Rightarrow> c \<in> fst ` set (Signal_m_connections sg)" by simp
      have in_set: "case m_pSlot cn of None \<Rightarrow> True
            | Some sl \<Rightarrow> (case slots h' sl of None \<Rightarrow> False
                | Some so \<Rightarrow> c \<in> set (Slot_m_connections so))"
      proof (cases "m_pSlot cn")
        case None
        then show ?thesis by simp
      next
        case (Some sl)
        from connection_okD(2) [OF cok \<open>m_pSignal cn = Some s\<close> Some] obtain so where
          so: "slots h sl = Some so" "c \<in> set (Slot_m_connections so)" by blast
        from slts_dom [OF so False] obtain so' where so': "slots h' sl = Some so'" by blast
        from slts [OF so'] so(1) have "Slot_m_connections so' =
            filter (\<lambda>c. c \<notin> R) (Slot_m_connections so)" by simp
        with so(2) False have "c \<in> set (Slot_m_connections so')" by simp
        with so' Some show ?thesis by simp
      qed
      from in_table in_set Some show ?thesis by (simp add: connection_ok_def)
    qed
  qed
next
  fix sl so' assume sl: "slots h' sl = Some so'"
  from slts [OF sl] obtain so where so: "slots h sl = Some so"
    "Slot_m_connections so' = filter (\<lambda>c. c \<notin> R) (Slot_m_connections so)"
    by blast
  from heap_ok_slot [OF ok so(1)]
  have 1: "distinct (Slot_m_connections so)"
    and 2: "\<forall>c \<in> set (Slot_m_connections so). member_ok h sl c"
    by (simp_all add: slot_ok_def)
  have "\<forall>c \<in> set (Slot_m_connections so'). member_ok h' sl c"
  proof
    fix c assume "c \<in> set (Slot_m_connections so')"
    with so(2) have c: "c \<in> set (Slot_m_connections so)" "c \<notin> R" by auto
    from member_ok_cong [OF kept [OF c(2)]] 2 c(1) show "member_ok h' sl c" by simp
  qed
  with 1 so(2) show "slot_ok h' sl so'" by (simp add: slot_ok_def)
qed

lemma heap_ok_Signal_disconnect:
  assumes ok: "heap_ok h" and run: "Signal_disconnect s c h = Some h'"
  shows "heap_ok h'"
proof -
  from run obtain sg where sg: "signals h s = Some sg"
    by (auto simp: Signal_disconnect_def split: option.splits)
  show ?thesis
  proof (cases "c \<in> fst ` set (Signal_m_connections sg)")
    case False
    with sg run ok show ?thesis by (simp add: Signal_disconnect_def)
  next
    case True
    from Signal_disconnect_effect [OF ok sg True] run
    have sigs': "signals h' = (signals h)(s \<mapsto>
              sg\<lparr>Signal_m_connections := map_erase c (Signal_m_connections sg)\<rparr>)"
      and conns': "connections h' = (connections h)(c \<mapsto> \<lparr>m_pSignal = None, m_pSlot = None\<rparr>)"
      and slots': "slots h' = (\<lambda>sl. map_option
              (\<lambda>so. so\<lparr>Slot_m_connections := set_erase c (Slot_m_connections so)\<rparr>) (slots h sl))"
      by auto
    from heap_ok_key_dom [OF ok sg] True obtain cn where cn: "connections h c = Some cn"
      by force
    show ?thesis
    proof (rule heap_ok_retire [OF ok, where R = "{c}"])
      fix x assume "x \<notin> {c}"
      with conns' show "connections h' x = connections h x" by simp
    next
      fix x cn' assume "x \<in> {c}" "connections h' x = Some cn'"
      with conns' show "m_pSignal cn' = None" by auto
    next
      fix s1 sg1 assume s1: "signals h' s1 = Some sg1"
      show "\<exists>sg. signals h s1 = Some sg \<and>
          Signal_m_connections sg1 = filter (\<lambda>kv. fst kv \<notin> {c}) (Signal_m_connections sg)"
      proof (cases "s1 = s")
        case True
        with s1 sigs' sg show ?thesis by (auto simp: map_erase_def)
      next
        case False
        with s1 sigs' have s1h: "signals h s1 = Some sg1" by simp
        have "c \<notin> fst ` set (Signal_m_connections sg1)"
        proof
          assume "c \<in> fst ` set (Signal_m_connections sg1)"
          from heap_ok_key_signal [OF ok s1h this cn] heap_ok_key_signal [OF ok sg True cn] False
          show False by simp
        qed
        from map_erase_absent [OF this] s1h show ?thesis by (simp add: map_erase_def)
      qed
    next
      fix s1 sg1 x assume "signals h s1 = Some sg1"
      with sigs' show "s1 \<in> dom (signals h')" by auto
    next
      fix sl so' assume "slots h' sl = Some so'"
      with slots' show "\<exists>so. slots h sl = Some so \<and>
          Slot_m_connections so' = filter (\<lambda>x. x \<notin> {c}) (Slot_m_connections so)"
        by (auto simp: set_erase_def)
    next
      fix sl so x assume "slots h sl = Some so"
      with slots' show "sl \<in> dom (slots h')" by auto
    qed
  qed
qed

lemma heap_ok_Connection_disconnect:
  assumes ok: "heap_ok h" and run: "Connection_disconnect c h = Some h'"
  shows "heap_ok h'"
  using assms
  by (auto simp: Connection_disconnect_def split: option.splits
      intro: heap_ok_Signal_disconnect)

lemma heap_ok_disconnectAll_ready:
  assumes ok: "heap_ok h" and sg: "signals h s = Some sg"
  shows "disconnectAll_ready (map fst (Signal_m_connections sg)) h"
  unfolding disconnectAll_ready_def
proof
  fix c assume "c \<in> set (map fst (Signal_m_connections sg))"
  then have c: "c \<in> fst ` set (Signal_m_connections sg)" by simp
  with heap_ok_key_dom [OF ok sg] obtain cn where cn: "connections h c = Some cn" by force
  from heap_ok_key_signal [OF ok sg c cn] have s: "m_pSignal cn = Some s" .
  have "case m_pSlot cn of None \<Rightarrow> True | Some sl \<Rightarrow> sl \<in> dom (slots h)"
  proof (cases "m_pSlot cn")
    case None
    then show ?thesis by simp
  next
    case (Some sl)
    from connection_okD(2) [OF heap_ok_conn [OF ok cn] s Some] Some show ?thesis by auto
  qed
  with cn show "c \<in> dom (connections h) \<and>
      (case slot_of h c of None \<Rightarrow> True | Some sl \<Rightarrow> sl \<in> dom (slots h))"
    by (auto simp: slot_of_def)
qed

lemma Signal_disconnectAll_effect:
  assumes ok: "heap_ok h" and sg: "signals h s = Some sg"
  shows "\<exists>h'. Signal_disconnectAll s h = Some h' \<and>
     signals h' = (signals h)(s \<mapsto> sg\<lparr>Signal_m_connections := []\<rparr>) \<and>
     calls h' = calls h \<and>
     connections h' =
       (\<lambda>c. if c \<in> fst ` set (Signal_m_connections sg)
            then map_option (\<lambda>cn. cn\<lparr>m_pSignal := None\<rparr>) (connections h c)
            else connections h c) \<and>
     slots h' =
       (\<lambda>sl. map_option
          (\<lambda>so. so\<lparr>Slot_m_connections :=
                    filter (\<lambda>c. c \<notin> fst ` set (Signal_m_connections sg)) (Slot_m_connections so)\<rparr>)
          (slots h sl))"
proof -
  let ?ks = "map fst (Signal_m_connections sg)"
  from disconnectAll_loop_effect [OF heap_ok_disconnectAll_ready [OF ok sg]]
  obtain hl where loop: "disconnectAll_loop ?ks h = Some hl"
    and sigs: "signals hl = signals h" and calls: "calls hl = calls h"
    and conns: "connections hl =
       (\<lambda>c. if c \<in> set ?ks then map_option (\<lambda>cn. cn\<lparr>m_pSignal := None\<rparr>) (connections h c)
            else connections h c)"
    and slts: "slots hl =
       (\<lambda>sl. map_option
          (\<lambda>so. so\<lparr>Slot_m_connections :=
                    filter (\<lambda>c. \<not> (c \<in> set ?ks \<and> slot_of h c = Some sl)) (Slot_m_connections so)\<rparr>)
          (slots h sl))"
    by blast
  have slts': "slots hl =
       (\<lambda>sl. map_option
          (\<lambda>so. so\<lparr>Slot_m_connections :=
                    filter (\<lambda>c. c \<notin> fst ` set (Signal_m_connections sg)) (Slot_m_connections so)\<rparr>)
          (slots h sl))"
  proof (rule ext)
    fix sl
    show "slots hl sl = map_option
          (\<lambda>so. so\<lparr>Slot_m_connections :=
                    filter (\<lambda>c. c \<notin> fst ` set (Signal_m_connections sg)) (Slot_m_connections so)\<rparr>)
          (slots h sl)"
    proof (cases "slots h sl")
      case None
      then show ?thesis by (simp add: slts)
    next
      case (Some so)
      have "filter (\<lambda>c. \<not> (c \<in> set ?ks \<and> slot_of h c = Some sl)) (Slot_m_connections so) =
            filter (\<lambda>c. c \<notin> fst ` set (Signal_m_connections sg)) (Slot_m_connections so)"
      proof (rule filter_cong [OF refl])
        fix c assume c: "c \<in> set (Slot_m_connections so)"
        from heap_ok_member_dom [OF ok Some c] obtain cn where cn: "connections h c = Some cn"
          by auto
        from heap_ok_member_slot [OF ok Some c cn] cn have "slot_of h c = Some sl"
          by (simp add: slot_of_def)
        then show "(\<not> (c \<in> set ?ks \<and> slot_of h c = Some sl)) =
            (c \<notin> fst ` set (Signal_m_connections sg))" by simp
      qed
      with Some show ?thesis by (simp add: slts)
    qed
  qed
  from loop sg sigs calls conns slts' show ?thesis
    by (simp add: Signal_disconnectAll_def)
qed

lemma heap_ok_Signal_disconnectAll:
  assumes ok: "heap_ok h" and run: "Signal_disconnectAll s h = Some h'"
  shows "heap_ok h'"
proof -
  from run obtain sg where sg: "signals h s = Some sg"
    by (auto simp: Signal_disconnectAll_def split: option.splits)
  let ?R = "fst ` set (Signal_m_connections sg)"
  from Signal_disconnectAll_effect [OF ok sg] run
  have sigs': "signals h' = (signals h)(s \<mapsto> sg\<lparr>Signal_m_connections := []\<rparr>)"
    and conns': "connections h' =
       (\<lambda>c. if c \<in> ?R then map_option (\<lambda>cn. cn\<lparr>m_pSignal := None\<rparr>) (connections h c)
            else connections h c)"
    and slots': "slots h' =
       (\<lambda>sl. map_option
          (\<lambda>so. so\<lparr>Slot_m_connections := filter (\<lambda>c. c \<notin> ?R) (Slot_m_connections so)\<rparr>)
          (slots h sl))"
    by auto
  show ?thesis
  proof (rule heap_ok_retire [OF ok, where R = ?R])
    fix x assume "x \<notin> ?R"
    with conns' show "connections h' x = connections h x" by simp
  next
    fix x cn' assume "x \<in> ?R" "connections h' x = Some cn'"
    with conns' show "m_pSignal cn' = None" by auto
  next
    fix s1 sg1 assume s1: "signals h' s1 = Some sg1"
    show "\<exists>sg'. signals h s1 = Some sg' \<and>
        Signal_m_connections sg1 = filter (\<lambda>kv. fst kv \<notin> ?R) (Signal_m_connections sg')"
    proof (cases "s1 = s")
      case True
      have "filter (\<lambda>kv. fst kv \<notin> ?R) (Signal_m_connections sg) = []"
        by (auto simp: filter_empty_conv)
      with True s1 sigs' sg show ?thesis by auto
    next
      case False
      with s1 sigs' have s1h: "signals h s1 = Some sg1" by simp
      have "\<forall>kv \<in> set (Signal_m_connections sg1). fst kv \<notin> ?R"
      proof (intro ballI notI)
        fix kv assume kv: "kv \<in> set (Signal_m_connections sg1)" and in_s: "fst kv \<in> ?R"
        from heap_ok_key_dom [OF ok s1h kv] obtain cn where cn: "connections h (fst kv) = Some cn"
          by auto
        from kv have "fst kv \<in> fst ` set (Signal_m_connections sg1)" by simp
        from heap_ok_key_signal [OF ok s1h this cn] heap_ok_key_signal [OF ok sg in_s cn] False
        show False by simp
      qed
      then have "filter (\<lambda>kv. fst kv \<notin> ?R) (Signal_m_connections sg1) =
          Signal_m_connections sg1"
        by (rule filter_True)
      with s1h show ?thesis by simp
    qed
  next
    fix s1 sg1 x assume "signals h s1 = Some sg1"
    with sigs' show "s1 \<in> dom (signals h')" by auto
  next
    fix sl so' assume "slots h' sl = Some so'"
    with slots' show "\<exists>so. slots h sl = Some so \<and>
        Slot_m_connections so' = filter (\<lambda>x. x \<notin> ?R) (Slot_m_connections so)"
      by auto
  next
    fix sl so x assume "slots h sl = Some so"
    with slots' show "sl \<in> dom (slots h')" by auto
  qed
qed

lemma heap_ok_Signal_dtor:
  assumes ok: "heap_ok h" and run: "Signal_dtor s h = Some h'"
  shows "heap_ok h'"
proof -
  from run obtain hd where hd: "Signal_disconnectAll s h = Some hd"
    and h': "h' = hd\<lparr>signals := (signals hd)(s := None)\<rparr>"
    by (auto simp: Signal_dtor_def split: option.splits)
  from hd obtain sg where sg: "signals h s = Some sg"
    by (auto simp: Signal_disconnectAll_def split: option.splits)
  from Signal_disconnectAll_effect [OF ok sg] hd
  have empty: "signals hd s = Some (sg\<lparr>Signal_m_connections := []\<rparr>)" by auto
  note okd = heap_ok_Signal_disconnectAll [OF ok hd]
  show ?thesis
  proof (rule heap_ok_retire [OF okd, where R = "{}"])
    fix s1 sg1 assume "signals h' s1 = Some sg1"
    then show "\<exists>sg. signals hd s1 = Some sg \<and>
        Signal_m_connections sg1 = filter (\<lambda>kv. fst kv \<notin> {}) (Signal_m_connections sg)"
      by (auto simp: h' split: if_splits)
  next
    fix s1 sg1 x assume "signals hd s1 = Some sg1" "x \<in> fst ` set (Signal_m_connections sg1)"
    with empty have "s1 \<noteq> s" by auto
    with \<open>signals hd s1 = Some sg1\<close> show "s1 \<in> dom (signals h')" by (auto simp: h')
  next
    fix sl so' assume "slots h' sl = Some so'"
    then show "\<exists>so. slots hd sl = Some so \<and>
        Slot_m_connections so' = filter (\<lambda>x. x \<notin> {}) (Slot_m_connections so)"
      by (simp add: h')
  next
    fix sl so x assume "slots hd sl = Some so"
    then show "sl \<in> dom (slots h')" by (auto simp: h')
  qed (simp_all add: h')
qed

lemma heap_ok_same_registry:
  assumes "connections h' = connections h" "slots h' = slots h" "signals h' = signals h"
  shows "heap_ok h' = heap_ok h"
  unfolding heap_ok_defs assms ..

lemma heap_ok_Signal_emit:
  assumes ok: "heap_ok h" and run: "Signal_emit s args h = Some r"
  shows "heap_ok (state_of r)"
proof -
  from run have "connections (state_of r) = connections h" "slots (state_of r) = slots h"
    "signals (state_of r) = signals h"
    by (auto simp: Signal_emit_def emit_loop_frame split: option.splits)
  from heap_ok_same_registry [OF this] ok show ?thesis by simp
qed

lemma heap_ok_empty: "heap_ok empty_heap"
  by (simp add: heap_ok_def empty_heap_def)

lemma heap_ok_empty_throws: "heap_ok (empty_heap\<lparr>throws := t\<rparr>)"
  by (simp add: heap_ok_def empty_heap_def)

lemma heap_ok_Signal_ctor:
  assumes ok: "heap_ok h" and fresh: "s \<notin> dom (signals h)"
    and run: "Signal_ctor s h = Some h'"
  shows "heap_ok h'"
proof -
  from run have h': "h' = h\<lparr>signals := (signals h)(s \<mapsto> \<lparr>Signal_m_connections = []\<rparr>)\<rparr>"
    by (simp add: Signal_ctor_def)
  show ?thesis
  proof (rule heap_okI)
    fix s1 sg1 assume "signals h' s1 = Some sg1"
    then show "signal_ok h' s1 sg1"
      using heap_ok_signal [OF ok, of s1 sg1]
      by (auto simp: h' signal_ok_def entry_ok_def split: if_splits)
  next
    fix c cn assume "connections h' c = Some cn"
    then have c: "connections h c = Some cn" by (simp add: h')
    from heap_ok_conn [OF ok c] fresh show "connection_ok h' c cn"
      by (auto simp: h' connection_ok_def split: option.splits)
  next
    fix slot so assume "slots h' slot = Some so"
    then have "slots h slot = Some so" by (simp add: h')
    from heap_ok_slot [OF ok this] show "slot_ok h' slot so"
      by (simp add: h' slot_ok_def member_ok_def)
  qed
qed

lemma heap_ok_Slot_ctor:
  assumes ok: "heap_ok h" and fresh: "slot \<notin> dom (slots h)"
    and run: "Slot_ctor slot h = Some h'"
  shows "heap_ok h'"
proof -
  from run have h': "h' = h\<lparr>slots := (slots h)(slot \<mapsto> \<lparr>Slot_m_connections = []\<rparr>)\<rparr>"
    by (simp add: Slot_ctor_def)
  show ?thesis
  proof (rule heap_okI)
    fix s1 sg1 assume "signals h' s1 = Some sg1"
    then have "signals h s1 = Some sg1" by (simp add: h')
    from heap_ok_signal [OF ok this] show "signal_ok h' s1 sg1"
      by (simp add: h' signal_ok_def entry_ok_def)
  next
    fix c cn assume "connections h' c = Some cn"
    then have c: "connections h c = Some cn" by (simp add: h')
    from heap_ok_conn [OF ok c] fresh show "connection_ok h' c cn"
      by (auto simp: h' connection_ok_def split: option.splits)
  next
    fix sl so assume "slots h' sl = Some so"
    then show "slot_ok h' sl so"
      using heap_ok_slot [OF ok, of sl so]
      by (auto simp: h' slot_ok_def member_ok_def split: if_splits)
  qed
qed

lemma perform_returns:
  assumes ok: "heap_ok h" and may: "permitted op h"
  shows "\<exists>h'. perform op h = Some h'"
proof (cases op)
  case (Disconnect_Handle c)
  with may obtain cn where cn: "connections h c = Some cn" by auto
  show ?thesis
  proof (cases "m_pSignal cn")
    case None
    with cn Disconnect_Handle show ?thesis by (simp add: Connection_disconnect_def)
  next
    case (Some s)
    from connection_okD(1) [OF heap_ok_conn [OF ok cn] Some] obtain sg where
      "signals h s = Some sg" "c \<in> fst ` set (Signal_m_connections sg)" by blast
    from Signal_disconnect_effect [OF ok this] cn Some Disconnect_Handle show ?thesis
      by (auto simp: Connection_disconnect_def)
  qed
next
  case (Disconnect s c)
  with may obtain sg where sg: "signals h s = Some sg" by auto
  show ?thesis
  proof (cases "c \<in> fst ` set (Signal_m_connections sg)")
    case True
    from Signal_disconnect_effect [OF ok sg True] Disconnect show ?thesis by auto
  next
    case False
    with sg Disconnect show ?thesis by (simp add: Signal_disconnect_def)
  qed
next
  case (Disconnect_All s)
  with may obtain sg where sg: "signals h s = Some sg" by auto
  from Signal_disconnectAll_effect [OF ok sg] Disconnect_All show ?thesis by auto
next
  case (Delete_Signal s)
  with may obtain sg where sg: "signals h s = Some sg" by auto
  from Signal_disconnectAll_effect [OF ok sg] Delete_Signal show ?thesis
    by (auto simp: Signal_dtor_def)
next
  case (Delete_Slot slot)
  with may obtain so where so: "slots h slot = Some so" by auto
  from Slot_dtor_body_effect [OF ok so] Delete_Slot show ?thesis
    by (auto simp: Slot_dtor_def)
qed (use may in \<open>auto simp: Signal_ctor_def Slot_ctor_def Signal_connect_def
      Signal_connect_slot_def Signal_emit_def Signal_call_def\<close>)

lemma perform_heap_ok:
  assumes ok: "heap_ok h" and may: "permitted op h" and run: "perform op h = Some h'"
  shows "heap_ok h'"
proof (cases op)
  case (New_Signal s)
  with may run show ?thesis by (auto intro: heap_ok_Signal_ctor [OF ok])
next
  case (New_Slot slot)
  with may run show ?thesis by (auto intro: heap_ok_Slot_ctor [OF ok])
next
  case (Connect s p f)
  with may run show ?thesis by (auto intro: heap_ok_Signal_connect [OF ok])
next
  case (Connect_Slot s p slot f)
  with may run show ?thesis by (auto intro: heap_ok_Signal_connect_slot [OF ok])
next
  case (Disconnect_Handle c)
  with run show ?thesis by (auto intro: heap_ok_Connection_disconnect [OF ok])
next
  case (Disconnect s c)
  with run show ?thesis by (auto intro: heap_ok_Signal_disconnect [OF ok])
next
  case (Disconnect_All s)
  with run show ?thesis by (auto intro: heap_ok_Signal_disconnectAll [OF ok])
next
  case (Emit s args)
  with run show ?thesis by (auto intro: heap_ok_Signal_emit [OF ok])
next
  case (Call s args)
  with run have "perform (Emit s args) h = Some h'" by (simp only: perform_Call)
  then obtain r where "Signal_emit s args h = Some r" "h' = state_of r" by auto
  with heap_ok_Signal_emit [OF ok] show ?thesis by simp
next
  case (Delete_Signal s)
  with run show ?thesis by (auto intro: heap_ok_Signal_dtor [OF ok])
next
  case (Delete_Slot slot)
  with may obtain so where "slots h slot = Some so" by auto
  from heap_ok_Slot_dtor [OF ok this] run Delete_Slot show ?thesis by simp
qed

lemma run_heap_ok:
  "heap_ok h \<Longrightarrow> run ops h = Some h' \<Longrightarrow> heap_ok h'"
proof (induction ops arbitrary: h)
  case Nil
  then show ?case by simp
next
  case (Cons op ops)
  from Cons.prems(2) obtain h1 where may: "permitted op h" and step: "perform op h = Some h1"
    and rest: "run ops h1 = Some h'"
    by (auto split: if_splits option.splits)
  from Cons.IH [OF perform_heap_ok [OF Cons.prems(1) may step] rest] show ?case .
qed

section \<open>What destroying a slot achieves\<close>

lemma emit_bound_slot_alive:
  assumes ok: "heap_ok h" and em: "Signal_emit s args h = Some r"
    and inv: "(BoundMethod slot f, a) \<in> set (emitted h (state_of r))"
  shows "slot \<in> dom (slots h)"
proof -
  from em obtain sg where sg: "signals h s = Some sg"
    by (auto simp: Signal_emit_def split: option.splits)
  from emitted_registered [OF sg em inv] obtain c where
    c: "(c, BoundMethod slot f) \<in> set (Signal_m_connections sg)" by auto
  with heap_ok_signal [OF ok sg] have "entry_ok h s (c, BoundMethod slot f)"
    by (auto simp: signal_ok_def)
  then obtain cn where cn: "connections h c = Some cn" "m_pSignal cn = Some s"
    "m_pSlot cn = Some slot"
    by (auto dest: entry_okD)
  from connection_okD(2) [OF heap_ok_conn [OF ok cn(1)] cn(2) cn(3)] show ?thesis by auto
qed

text \<open>
  Claim C4, as the code has it. Destroying a slot object in a consistent state returns.
  For every connection of the slot's set the loop first nulls \<open>m_pSlot\<close> and \<open>m_pSignal\<close>
  and only then calls the signal's \<open>disconnect\<close> on that state (last conjunct, for any
  state the loop is in). The loop does not touch the slot's set: after the destructor's
  body the set holds the handles it held on entry, each now with both back pointers
  null; the set goes with the object. For every signal, \<open>count()\<close> drops by exactly the
  number of the slot's connections registered on it. Afterwards no table holds a method
  bound to the destroyed object, an \<open>emit\<close> invokes none, and the state is consistent
  again; nor does an \<open>emit\<close> invoke one after any further permitted calls, as long as
  no new object has been constructed at the address.
\<close>

theorem Slot_dtor_teardown:
  fixes h :: "('f, 'a) heap"
  assumes ok: "heap_ok h" and so: "slots h slot = Some so"
  shows "\<exists>hl h'.
     Slot_dtor_body slot h = Some hl \<and> Slot_dtor slot h = Some h' \<and>
     slots hl slot = Some so \<and>
     (\<forall>c \<in> set (Slot_m_connections so).
        connections hl c = Some \<lparr>m_pSignal = None, m_pSlot = None\<rparr> \<and>
        connections h' c = Some \<lparr>m_pSignal = None, m_pSlot = None\<rparr>) \<and>
     slots h' slot = None \<and>
     (\<forall>s n. Signal_count s h = Some n \<longrightarrow>
        length (slot_connections_on h so s) \<le> n \<and>
        Signal_count s h' = Some (n - length (slot_connections_on h so s))) \<and>
     (\<forall>s sg f. signals h' s = Some sg \<longrightarrow>
        BoundMethod slot f \<notin> snd ` set (Signal_m_connections sg)) \<and>
     (\<forall>s args r f a. Signal_emit s args h' = Some r \<longrightarrow>
        (BoundMethod slot f, a) \<notin> set (emitted h' (state_of r))) \<and>
     heap_ok h' \<and>
     (\<forall>ops h2 s args r f a.
        run ops h' = Some h2 \<longrightarrow> slot \<notin> dom (slots h2) \<longrightarrow>
        Signal_emit s args h2 = Some r \<longrightarrow>
          (BoundMethod slot f, a) \<notin> set (emitted h2 (state_of r))) \<and>
     (\<forall>c rest cn s (g :: ('f, 'a) heap).
        connections g c = Some cn \<longrightarrow> m_pSignal cn = Some s \<longrightarrow>
          Slot_dtor_loop (c # rest) g =
            (case Signal_disconnect s c (Slot_dtor_clear c cn g) of
               None \<Rightarrow> None
             | Some g' \<Rightarrow> Slot_dtor_loop rest g') \<and>
          connections (Slot_dtor_clear c cn g) c = Some \<lparr>m_pSignal = None, m_pSlot = None\<rparr>)"
proof -
  let ?cs = "Slot_m_connections so"
  from Slot_dtor_body_effect [OF ok so] obtain hl where
    body: "Slot_dtor_body slot h = Some hl"
    and slots_hl: "slots hl = slots h"
    and conns_hl: "connections hl =
       (\<lambda>c. if c \<in> set ?cs then Some \<lparr>m_pSignal = None, m_pSlot = None\<rparr> else connections h c)"
    and sigs_hl: "signals hl =
       (\<lambda>s. map_option
          (\<lambda>sg. sg\<lparr>Signal_m_connections :=
                    filter (\<lambda>kv. fst kv \<notin> set ?cs) (Signal_m_connections sg)\<rparr>)
          (signals h s))"
    by blast
  define h' where "h' = hl\<lparr>slots := (slots hl)(slot := None)\<rparr>"
  have dtor: "Slot_dtor slot h = Some h'"
    using body by (simp add: Slot_dtor_def h'_def)
  have sigs_h': "signals h' = signals hl" and conns_h': "connections h' = connections hl"
    by (simp_all add: h'_def)
  have a: "slots hl slot = Some so" using slots_hl so by simp
  have b: "\<forall>c \<in> set ?cs.
        connections hl c = Some \<lparr>m_pSignal = None, m_pSlot = None\<rparr> \<and>
        connections h' c = Some \<lparr>m_pSignal = None, m_pSlot = None\<rparr>"
    using conns_hl conns_h' by simp
  have c: "slots h' slot = None" by (simp add: h'_def)
  have d: "\<forall>s n. Signal_count s h = Some n \<longrightarrow>
        length (slot_connections_on h so s) \<le> n \<and>
        Signal_count s h' = Some (n - length (slot_connections_on h so s))"
  proof (intro allI impI)
    fix s n assume n: "Signal_count s h = Some n"
    then obtain sg where sg: "signals h s = Some sg" "n = length (Signal_m_connections sg)"
      by (auto simp: Signal_count_def split: option.splits)
    from heap_ok_signal [OF ok sg(1)] have d1: "distinct (map fst (Signal_m_connections sg))"
      by (simp add: signal_ok_def)
    from heap_ok_slot [OF ok so] have d2: "distinct ?cs" by (simp add: slot_ok_def)
    from length_filter_keys [OF d1 d2] slot_connections_on_keys [OF ok so sg(1)]
    have len: "length (filter (\<lambda>kv. fst kv \<notin> set ?cs) (Signal_m_connections sg)) +
        length (slot_connections_on h so s) = n"
      using sg(2) by simp
    have "Signal_count s h' =
        Some (length (filter (\<lambda>kv. fst kv \<notin> set ?cs) (Signal_m_connections sg)))"
      using sg(1) sigs_h' sigs_hl by (simp add: Signal_count_def)
    with len show "length (slot_connections_on h so s) \<le> n \<and>
        Signal_count s h' = Some (n - length (slot_connections_on h so s))"
      by auto
  qed
  have e: "\<forall>s sg f. signals h' s = Some sg \<longrightarrow>
        BoundMethod slot f \<notin> snd ` set (Signal_m_connections sg)"
  proof (intro allI impI)
    fix s sg' f assume "signals h' s = Some sg'"
    with sigs_h' sigs_hl obtain sg where sg: "signals h s = Some sg"
      "Signal_m_connections sg' = filter (\<lambda>kv. fst kv \<notin> set ?cs) (Signal_m_connections sg)"
      by auto
    from Slot_dtor_no_bound_method [OF ok so sg(1)] sg(2)
    show "BoundMethod slot f \<notin> snd ` set (Signal_m_connections sg')" by simp
  qed
  have f: "\<forall>s args r f a. Signal_emit s args h' = Some r \<longrightarrow>
        (BoundMethod slot f, a) \<notin> set (emitted h' (state_of r))"
  proof (intro allI impI)
    fix s args r f a assume em: "Signal_emit s args h' = Some r"
    then obtain sg' where sg': "signals h' s = Some sg'"
      by (auto simp: Signal_emit_def split: option.splits)
    from e sg' have "BoundMethod slot f \<notin> snd ` set (Signal_m_connections sg')" by blast
    with emitted_registered [OF sg' em]
    show "(BoundMethod slot f, a) \<notin> set (emitted h' (state_of r))" by blast
  qed
  have g: "heap_ok h'" by (rule heap_ok_Slot_dtor [OF ok so dtor])
  have i: "\<forall>c rest cn s (g :: ('f, 'a) heap).
        connections g c = Some cn \<longrightarrow> m_pSignal cn = Some s \<longrightarrow>
          Slot_dtor_loop (c # rest) g =
            (case Signal_disconnect s c (Slot_dtor_clear c cn g) of
               None \<Rightarrow> None
             | Some g' \<Rightarrow> Slot_dtor_loop rest g') \<and>
          connections (Slot_dtor_clear c cn g) c = Some \<lparr>m_pSignal = None, m_pSlot = None\<rparr>"
  proof (intro allI impI)
    fix c rest cn s and g :: "('f, 'a) heap"
    assume "connections g c = Some cn" "m_pSignal cn = Some s"
    then show "Slot_dtor_loop (c # rest) g =
            (case Signal_disconnect s c (Slot_dtor_clear c cn g) of
               None \<Rightarrow> None
             | Some g' \<Rightarrow> Slot_dtor_loop rest g') \<and>
          connections (Slot_dtor_clear c cn g) c = Some \<lparr>m_pSignal = None, m_pSlot = None\<rparr>"
      by (cases cn) (simp add: Slot_dtor_clear_def)
  qed
  have later: "\<forall>ops h2 s args r f a.
        run ops h' = Some h2 \<longrightarrow> slot \<notin> dom (slots h2) \<longrightarrow>
        Signal_emit s args h2 = Some r \<longrightarrow>
          (BoundMethod slot f, a) \<notin> set (emitted h2 (state_of r))"
  proof (intro allI impI notI)
    fix ops h2 s args r f a
    assume "run ops h' = Some h2" and gone: "slot \<notin> dom (slots h2)"
      and em: "Signal_emit s args h2 = Some r"
      and inv: "(BoundMethod slot f, a) \<in> set (emitted h2 (state_of r))"
    from run_heap_ok [OF g this(1)] have "heap_ok h2" .
    from emit_bound_slot_alive [OF this em inv] gone show False by simp
  qed
  from body dtor a b c d e f g later i show ?thesis by blast
qed


theorem Slot_dtor_teardown_witness:
  "heap_ok two_listeners \<and>
   slots two_listeners 0 = Some \<lparr>Slot_m_connections = [2]\<rparr> \<and>
   (\<exists>hl h'. Slot_dtor_body 0 two_listeners = Some hl \<and> Slot_dtor 0 two_listeners = Some h' \<and>
      slots hl 0 = Some \<lparr>Slot_m_connections = [2]\<rparr> \<and>
      connections h' 2 = Some \<lparr>m_pSignal = None, m_pSlot = None\<rparr> \<and>
      Signal_count 0 two_listeners = Some 2 \<and> Signal_count 0 h' = Some 1)"
proof -
  have so: "slots two_listeners 0 = Some \<lparr>Slot_m_connections = [2]\<rparr>"
    by (simp add: two_listeners_def)
  have two: "Signal_count 0 two_listeners = Some 2"
    by (simp add: two_listeners_def Signal_count_def)
  have on: "slot_connections_on two_listeners \<lparr>Slot_m_connections = [2]\<rparr> 0 = [2]"
    by (simp add: two_listeners_def slot_connections_on_def)
  from Slot_dtor_teardown [OF heap_ok_two_listeners so]
  obtain hl h' where *: "Slot_dtor_body 0 two_listeners = Some hl"
    "Slot_dtor 0 two_listeners = Some h'"
    "slots hl 0 = Some \<lparr>Slot_m_connections = [2]\<rparr>"
    "\<forall>c \<in> set (Slot_m_connections \<lparr>Slot_m_connections = [2]\<rparr>).
        connections hl c = Some \<lparr>m_pSignal = None, m_pSlot = None\<rparr> \<and>
        connections h' c = Some \<lparr>m_pSignal = None, m_pSlot = None\<rparr>"
    "\<forall>s n. Signal_count s two_listeners = Some n \<longrightarrow>
        length (slot_connections_on two_listeners \<lparr>Slot_m_connections = [2]\<rparr> s) \<le> n \<and>
        Signal_count s h' =
          Some (n - length (slot_connections_on two_listeners \<lparr>Slot_m_connections = [2]\<rparr> s))"
    by (elim exE conjE) (rule that; assumption)
  from *(4) have c2: "connections h' 2 = Some \<lparr>m_pSignal = None, m_pSlot = None\<rparr>" by simp
  from *(5) two on have "Signal_count 0 h' = Some 1" by simp
  with * c2 two so heap_ok_two_listeners show ?thesis by blast
qed

section \<open>The invariant of \<open>m_pSlot\<close>\<close>

text \<open>
  In a consistent state a connection in a slot's set always points at that slot, and a
  connection that is still registered and points at a slot is in that slot's set. So
  the invariant can only fail at a connection that is no longer registered, and it
  holds exactly when every such connection has \<open>m_pSlot\<close> null. Every operation but
  \<open>disconnectAll\<close> and the destructor of \<open>Signal\<close> keeps it.
\<close>

lemma targetSlot_invariant_iff:
  assumes ok: "heap_ok h"
  shows "targetSlot_invariant h \<longleftrightarrow>
     (\<forall>c cn. connections h c = Some cn \<longrightarrow> m_pSignal cn = None \<longrightarrow> m_pSlot cn = None)"
proof
  assume inv: "targetSlot_invariant h"
  show "\<forall>c cn. connections h c = Some cn \<longrightarrow> m_pSignal cn = None \<longrightarrow> m_pSlot cn = None"
  proof (intro allI impI)
    fix c cn assume cn: "connections h c = Some cn" and retired: "m_pSignal cn = None"
    show "m_pSlot cn = None"
    proof (rule ccontr)
      assume "m_pSlot cn \<noteq> None"
      then obtain sl where sl: "m_pSlot cn = Some sl" by auto
      from cn have "c \<in> dom (connections h)" by (rule domI)
      with inv have "case m_pSlot (the (connections h c)) of
           None \<Rightarrow> True
         | Some sl \<Rightarrow>
             (case slots h sl of
                None \<Rightarrow> False
              | Some so \<Rightarrow> c \<in> set (Slot_m_connections so))"
        by (simp add: targetSlot_invariant_def)
      with cn sl obtain so where so: "slots h sl = Some so" "c \<in> set (Slot_m_connections so)"
        by (auto split: option.splits)
      from heap_ok_slot [OF ok so(1)] so(2) have "member_ok h sl c" by (simp add: slot_ok_def)
      with cn retired show False by (auto dest: member_okD)
    qed
  qed
next
  assume clean: "\<forall>c cn. connections h c = Some cn \<longrightarrow> m_pSignal cn = None \<longrightarrow> m_pSlot cn = None"
  show "targetSlot_invariant h"
    unfolding targetSlot_invariant_def
  proof (intro ballI conjI impI)
    fix c assume "c \<in> dom (connections h)"
    then obtain cn where cn: "connections h c = Some cn" by auto
    show "case m_pSlot (the (connections h c)) of
           None \<Rightarrow> True
         | Some sl \<Rightarrow>
             (case slots h sl of
                None \<Rightarrow> False
              | Some so \<Rightarrow> c \<in> set (Slot_m_connections so))"
    proof (cases "m_pSlot cn")
      case None
      with cn show ?thesis by simp
    next
      case (Some sl)
      with clean cn obtain s where s: "m_pSignal cn = Some s" by (cases "m_pSignal cn") auto
      from connection_okD(2) [OF heap_ok_conn [OF ok cn] s Some] cn Some
      show ?thesis by auto
    qed
  next
    fix c sl assume "c \<in> dom (connections h)" "sl \<in> dom (slots h)"
      and c: "c \<in> set (Slot_m_connections (the (slots h sl)))"
    then obtain cn so where cn: "connections h c = Some cn" and so: "slots h sl = Some so"
      by auto
    from heap_ok_member_slot [OF ok so _ cn] c so cn
    show "m_pSlot (the (connections h c)) = Some sl" by simp
  qed
qed

lemma perform_targetSlot_invariant:
  assumes ok: "heap_ok h" and inv: "targetSlot_invariant h" and may: "permitted op h"
    and other: "\<And>s. op \<noteq> Disconnect_All s" "\<And>s. op \<noteq> Delete_Signal s"
    and run: "perform op h = Some h'"
  shows "targetSlot_invariant h'"
proof -
  note ok' = perform_heap_ok [OF ok may run]
  from inv targetSlot_invariant_iff [OF ok]
  have clean: "\<And>c cn. connections h c = Some cn \<Longrightarrow> m_pSignal cn = None \<Longrightarrow> m_pSlot cn = None"
    by blast
  have "\<forall>c cn. connections h' c = Some cn \<longrightarrow> m_pSignal cn = None \<longrightarrow> m_pSlot cn = None"
  proof (cases op)
    case (New_Signal s)
    with run clean show ?thesis by (auto simp: Signal_ctor_def)
  next
    case (New_Slot slot)
    with run clean show ?thesis by (auto simp: Slot_ctor_def)
  next
    case (Connect s p f)
    with run clean show ?thesis
      by (auto simp: Signal_connect_def split: option.splits if_splits)
  next
    case (Connect_Slot s p slot f)
    with run clean show ?thesis
      by (auto simp: Signal_connect_slot_def split: option.splits if_splits)
  next
    case (Disconnect s c)
    with may obtain sg where sg: "signals h s = Some sg" by auto
    show ?thesis
    proof (cases "c \<in> fst ` set (Signal_m_connections sg)")
      case True
      from Signal_disconnect_effect [OF ok sg True] run Disconnect clean show ?thesis
        by (auto split: if_splits)
    next
      case False
      with sg run Disconnect clean show ?thesis by (auto simp: Signal_disconnect_def)
    qed
  next
    case (Disconnect_Handle c)
    with may obtain cn where cn: "connections h c = Some cn" by auto
    show ?thesis
    proof (cases "m_pSignal cn")
      case None
      with cn run Disconnect_Handle clean show ?thesis
        by (auto simp: Connection_disconnect_def)
    next
      case (Some s)
      from connection_okD(1) [OF heap_ok_conn [OF ok cn] Some] obtain sg where
        sg: "signals h s = Some sg" "c \<in> fst ` set (Signal_m_connections sg)" by blast
      from Signal_disconnect_effect [OF ok sg] run Disconnect_Handle cn Some clean
      show ?thesis by (auto simp: Connection_disconnect_def split: if_splits)
    qed
  next
    case (Emit s args)
    with run clean show ?thesis
      by (auto simp: Signal_emit_def emit_loop_frame split: option.splits)
  next
    case (Call s args)
    with run have "perform (Emit s args) h = Some h'" by (simp only: perform_Call)
    with clean show ?thesis
      by (auto simp: Signal_emit_def emit_loop_frame split: option.splits)
  next
    case (Delete_Slot slot)
    with may obtain so where so: "slots h slot = Some so" by auto
    from Slot_dtor_body_effect [OF ok so] run Delete_Slot clean show ?thesis
      by (auto simp: Slot_dtor_def split: if_splits)
  next
    case (Disconnect_All s)
    with other(1) [of s] show ?thesis by simp
  next
    case (Delete_Signal s)
    with other(2) [of s] show ?thesis by simp
  qed
  with targetSlot_invariant_iff [OF ok'] show ?thesis by simp
qed

lemma targetSlot_invariant_two_listeners: "targetSlot_invariant two_listeners"
  by (simp add: targetSlot_invariant_def two_listeners_def)

text \<open>What \<open>disconnectAll\<close> does in general: it returns, the count is 0, and every
  connection that was registered has \<open>m_pSignal\<close> null, is in no slot's set, and has the
  \<open>m_pSlot\<close> it had.\<close>

lemma Signal_disconnectAll_summary:
  assumes ok: "heap_ok h" and sg: "signals h s = Some sg"
  shows "\<exists>h'. Signal_disconnectAll s h = Some h' \<and> Signal_count s h' = Some 0 \<and> heap_ok h' \<and>
     (\<forall>c \<in> fst ` set (Signal_m_connections sg).
        \<exists>cn. connections h c = Some cn \<and>
          connections h' c = Some (cn\<lparr>m_pSignal := None\<rparr>) \<and>
          (\<forall>sl so. slots h' sl = Some so \<longrightarrow> c \<notin> set (Slot_m_connections so)))"
proof -
  from Signal_disconnectAll_effect [OF ok sg] obtain h' where
    run: "Signal_disconnectAll s h = Some h'"
    and sigs: "signals h' = (signals h)(s \<mapsto> sg\<lparr>Signal_m_connections := []\<rparr>)"
    and conns: "connections h' =
       (\<lambda>c. if c \<in> fst ` set (Signal_m_connections sg)
            then map_option (\<lambda>cn. cn\<lparr>m_pSignal := None\<rparr>) (connections h c)
            else connections h c)"
    and slts: "slots h' =
       (\<lambda>sl. map_option
          (\<lambda>so. so\<lparr>Slot_m_connections :=
                    filter (\<lambda>c. c \<notin> fst ` set (Signal_m_connections sg)) (Slot_m_connections so)\<rparr>)
          (slots h sl))"
    by blast
  have count: "Signal_count s h' = Some 0" using sigs by (simp add: Signal_count_def)
  have each: "\<forall>c \<in> fst ` set (Signal_m_connections sg).
        \<exists>cn. connections h c = Some cn \<and>
          connections h' c = Some (cn\<lparr>m_pSignal := None\<rparr>) \<and>
          (\<forall>sl so. slots h' sl = Some so \<longrightarrow> c \<notin> set (Slot_m_connections so))"
  proof
    fix c assume c: "c \<in> fst ` set (Signal_m_connections sg)"
    with heap_ok_key_dom [OF ok sg] obtain cn where cn: "connections h c = Some cn" by force
    from c cn conns have "connections h' c = Some (cn\<lparr>m_pSignal := None\<rparr>)" by simp
    moreover
    have "\<forall>sl so. slots h' sl = Some so \<longrightarrow> c \<notin> set (Slot_m_connections so)"
    proof (intro allI impI)
      fix sl so assume so': "slots h' sl = Some so"
      show "c \<notin> set (Slot_m_connections so)"
      proof (cases "slots h sl")
        case None
        with so' slts show ?thesis by simp
      next
        case (Some so0)
        with so' slts have "Slot_m_connections so =
            filter (\<lambda>x. x \<notin> fst ` set (Signal_m_connections sg)) (Slot_m_connections so0)"
          by auto
        with c show ?thesis by simp
      qed
    qed
    ultimately show "\<exists>cn. connections h c = Some cn \<and>
          connections h' c = Some (cn\<lparr>m_pSignal := None\<rparr>) \<and>
          (\<forall>sl so. slots h' sl = Some so \<longrightarrow> c \<notin> set (Slot_m_connections so))"
      using cn by blast
  qed
  from run count each heap_ok_Signal_disconnectAll [OF ok run] show ?thesis by blast
qed

section \<open>Running the library on concrete states\<close>

lemmas api_defs =
  Signal_connect_def Signal_connect_slot_def Signal_disconnect_def Signal_disconnectAll_def
  Signal_dtor_def Signal_count_def Connection_disconnect_def Slot_dtor_def Slot_dtor_body_def
  Slot_dtor_clear_def map_insert_def map_erase_def set_insert_def set_erase_def

text \<open>
  Claim C8. The README's example, run from the fresh signal and \<open>foobar\<close>: three
  connections to free callables (at addresses 1, 2, 3) and one to \<open>Foo::bar\<close> on \<open>foobar\<close>
  (at address 4) give \<open>count() = 4\<close>; \<open>conn1->disconnect()\<close> gives 3;
  \<open>signal.disconnect(conn2)\<close> gives 2; \<open>delete foobar\<close> gives 1; \<open>disconnectAll()\<close> gives 0.
  Every call returns.
\<close>

theorem readme_scenario:
  "\<exists>h1 h2 h3 h4 h5 h6 h7 h8.
     run [New_Signal 0, New_Slot 0] empty_heap = Some fresh_signal_and_foobar \<and>
     Signal_connect 0 1 (Some ''lambda1'') fresh_signal_and_foobar = Some h1 \<and>
     Signal_connect 0 2 (Some ''lambda2'') h1 = Some h2 \<and>
     Signal_connect 0 3 (Some ''lambda3'') h2 = Some h3 \<and>
     Signal_connect_slot 0 4 0 ''Foo::bar'' h3 = Some h4 \<and>
     Signal_count 0 h4 = Some 4 \<and>
     Connection_disconnect 1 h4 = Some h5 \<and>
     Signal_count 0 h5 = Some 3 \<and>
     Signal_disconnect 0 2 h5 = Some h6 \<and>
     Signal_count 0 h6 = Some 2 \<and>
     Slot_dtor 0 h6 = Some h7 \<and>
     Signal_count 0 h7 = Some 1 \<and>
     Signal_disconnectAll 0 h7 = Some h8 \<and>
     Signal_count 0 h8 = Some 0"
  by (simp add: api_defs fresh_signal_and_foobar_def empty_heap_def Signal_ctor_def Slot_ctor_def)

text \<open>
  Claim C1, at the state \<open>two_listeners\<close>. \<open>disconnectAll()\<close> returns with \<open>count() = 0\<close>,
  connection 2 has \<open>m_pSignal\<close> null and is no longer in the set of slot 0, but its
  \<open>m_pSlot\<close> still points at slot 0: the loop of \<open>disconnectAll\<close> erases the connection
  from the slot's set and never assigns \<open>m_pSlot\<close>, which \<open>Signal::disconnect\<close> does. The
  destructor of the signal calls \<open>disconnectAll\<close> and leaves the same back pointer in the
  surviving handle. What \<open>disconnectAll\<close> does to every registered connection of a
  consistent state is \<open>Signal_disconnectAll_summary\<close>: all of the claim but the null
  \<open>m_pSlot\<close>.
\<close>

theorem disconnectAll_keeps_m_pSlot:
  "\<exists>h' h''.
     Signal_disconnectAll 0 two_listeners = Some h' \<and>
     Signal_count 0 h' = Some 0 \<and>
     connections h' 1 = Some \<lparr>m_pSignal = None, m_pSlot = None\<rparr> \<and>
     connections h' 2 = Some \<lparr>m_pSignal = None, m_pSlot = Some 0\<rparr> \<and>
     slots h' 0 = Some \<lparr>Slot_m_connections = []\<rparr> \<and>
     Signal_dtor 0 two_listeners = Some h'' \<and>
     signals h'' 0 = None \<and>
     connections h'' 2 = Some \<lparr>m_pSignal = None, m_pSlot = Some 0\<rparr>"
  by (simp add: api_defs two_listeners_def)

lemma disconnectAll_not_targetSlot_invariant:
  "targetSlot_invariant two_listeners \<and>
   (\<exists>h'. Signal_disconnectAll 0 two_listeners = Some h' \<and> \<not> targetSlot_invariant h')"
  by (simp add: api_defs two_listeners_def targetSlot_invariant_def)

text \<open>
  Claim C2, at the same state. Before the call connection 2 has \<open>m_pSlot\<close> pointing at
  slot 0 and is in that slot's set; after \<open>disconnectAll()\<close> it is not in the set and
  \<open>m_pSlot\<close> is still not null, so \<open>disconnectAll\<close> does not keep the invariant
  (\<open>disconnectAll_not_targetSlot_invariant\<close> says so with the invariant written out). By
  contrast \<open>Signal::disconnect\<close> of the same connection leaves the set empty and
  \<open>m_pSlot\<close> null, and every operation other than \<open>disconnectAll\<close> and the destructor of
  \<open>Signal\<close> keeps the invariant (\<open>perform_targetSlot_invariant\<close>).
\<close>

theorem disconnectAll_breaks_targetSlot_invariant:
  "connections two_listeners 2 = Some \<lparr>m_pSignal = Some 0, m_pSlot = Some 0\<rparr> \<and>
   slots two_listeners 0 = Some \<lparr>Slot_m_connections = [2]\<rparr> \<and>
   (\<exists>h'. Signal_disconnectAll 0 two_listeners = Some h' \<and>
      m_pSlot (the (connections h' 2)) = Some 0 \<and>
      2 \<notin> set (Slot_m_connections (the (slots h' 0)))) \<and>
   (\<exists>h'. Signal_disconnect 0 2 two_listeners = Some h' \<and>
      m_pSlot (the (connections h' 2)) = None \<and>
      2 \<notin> set (Slot_m_connections (the (slots h' 0))))"
  by (simp add: api_defs two_listeners_def)

text \<open>
  Claim C4 as stated says that the slot's set is empty after the destructor's loop. At
  \<open>two_listeners\<close>, the body of the destructor of slot 0 returns and the set still holds
  connection 2: with \<open>m_pSlot\<close> nulled beforehand, \<open>Signal::disconnect\<close> skips the erasure
  from the set that the loop is iterating over.
\<close>

theorem Slot_dtor_body_keeps_set:
  "Slot_dtor_body 0 two_listeners \<noteq> None \<and>
   Slot_m_connections (the (slots (the (Slot_dtor_body 0 two_listeners)) 0)) = [2]"
  by (simp add: api_defs two_listeners_def)

end
